theory Spec2Isabelle
  imports Main "HOL-Library.Word" "HOL-Library.Multiset" "HOL-Library.Monad_Syntax"
begin

unbundle bit_operations_syntax

section \<open>Data model\<close>

text \<open>
  The library is a set of C++ templates over an element type \<open>T\<close> and a class \<open>Traits\<close>
  with a static \<open>get_key\<close>. Here \<open>T\<close> is the type variable \<open>'a\<close>, \<open>Traits::get_key\<close> is
  a function \<open>get_key :: 'a \<Rightarrow> 'k word\<close> passed to every operation, and
  \<open>sizeof(Traits::get_key(*src))*CHAR_BIT\<close> is \<open>LENGTH('k)\<close>. The template parameters
  \<open>WIDTH\<close>, \<open>BITS\<close> and \<open>THRESHOLD\<close> are ordinary arguments of type \<open>nat\<close>, as are all
  values of type \<open>size_t\<close> (counters are bounded by \<open>n\<close>); \<open>destination\<close> and \<open>mode\<close> are
  \<open>int\<close>.

  A buffer of \<open>n\<close> elements is a list. A function that receives the pointers \<open>src\<close> and
  \<open>tmp\<close> receives the two lists and returns their new contents, together with the
  identity of the pointer it returns: \<open>Src\<close> for the call's first buffer argument,
  \<open>Tmp\<close> for its second. A recursive call on \<open>src+b\<close>, \<open>dst+b\<close> with \<open>m\<close> elements
  receives the windows \<open>take m (drop b src)\<close>, \<open>take m (drop b dst)\<close> and its results are
  written back in place of them.

  A result is an \<open>option\<close>: \<open>None\<close> stands for a computation that does not return.
\<close>

datatype buf = Src | Tmp

fun other :: "buf \<Rightarrow> buf" where
  "other Src = Tmp"
| "other Tmp = Src"

text \<open>The same result seen by a caller that passed the two buffers in the other order.\<close>

fun swapped :: "buf \<times> 'a list \<times> 'a list \<Rightarrow> buf \<times> 'a list \<times> 'a list" where
  "swapped (r, x, y) = (other r, y, x)"

fun result_buf :: "buf \<times> 'a list \<times> 'a list \<Rightarrow> 'a list" where
  "result_buf (Src, x, y) = x"
| "result_buf (Tmp, x, y) = y"

definition window :: "'a list \<Rightarrow> nat \<Rightarrow> nat \<Rightarrow> 'a list" where
  "window xs b m = take m (drop b xs)"

definition put_window :: "'a list \<Rightarrow> nat \<Rightarrow> 'a list \<Rightarrow> 'a list" where
  "put_window xs b ys = take b xs @ ys @ drop (b + length ys) xs"

text \<open>\<open>++c[i]\<close>\<close>

definition incr :: "nat list \<Rightarrow> nat \<Rightarrow> nat list" where
  "incr c i = c[i := c ! i + 1]"

text \<open>\<open>size_t(Traits::get_key(x)>>OFFSET)&MASK\<close>\<close>

definition digit :: "('a \<Rightarrow> 'k::len word) \<Rightarrow> nat \<Rightarrow> nat \<Rightarrow> 'a \<Rightarrow> nat" where
  "digit get_key OFFSET MASK x = unat (drop_bit OFFSET (get_key x)) AND MASK"

text \<open>\<open>for(size_t i=0;i<n;++i) to[i]=from[i];\<close>\<close>

definition copy_n :: "'a list \<Rightarrow> 'a list \<Rightarrow> nat \<Rightarrow> 'a list" where
  "copy_n from to n = fold (\<lambda>i to. to[i := from ! i]) [0..<n] to"

section \<open>fallback\_sort\<close>

text \<open>
  The inner loop of the insertion sort together with the store that follows it:
  \<open>for(;j>0&&get_key(t)<get_key(d[j-1]);--j) d[j]=d[j-1]; d[j]=t;\<close>
\<close>

fun insert_down :: "('a \<Rightarrow> 'k::len word) \<Rightarrow> 'a \<Rightarrow> 'a list \<Rightarrow> nat \<Rightarrow> 'a list" where
  "insert_down get_key t d j =
     (if 0 < j \<and> get_key t < get_key (d ! (j - 1))
      then insert_down get_key t (d[j := d ! (j - 1)]) (j - 1)
      else d[j := t])"

declare insert_down.simps [simp del]

text \<open>
  The insertion sort of \<open>fallback_sort\<close>. The pointer \<open>d\<close> is \<open>src\<close> when
  \<open>destination==0\<close> and \<open>tmp\<close> otherwise, so the state is the pair of buffers and
  every access to \<open>d\<close> goes to the buffer it aliases.
\<close>

definition insertion_sort ::
  "('a \<Rightarrow> 'k::len word) \<Rightarrow> 'a list \<Rightarrow> 'a list \<Rightarrow> nat \<Rightarrow> int \<Rightarrow> 'a list \<times> 'a list" where
  "insertion_sort get_key src tmp n destination =
     fold (\<lambda>i (src, tmp).
             let t = src ! i in
             if destination = 0 then (insert_down get_key t src i, tmp)
             else (src, insert_down get_key t tmp i))
       [1..<n]
       (if 0 < n then (if destination = 0 then (src[0 := src ! 0], tmp)
                       else (src, tmp[0 := src ! 0]))
        else (src, tmp))"

text \<open>
  The merge loop \<open>while(true)\<close> with its two \<open>break\<close>s. \<open>l\<close> is the buffer that holds
  the two sorted halves, \<open>r = l + a\<close>, so \<open>r[j]\<close> is \<open>l ! (a + j)\<close>. The result is the
  destination buffer and the final \<open>i\<close>, \<open>j\<close>, \<open>k\<close>.
\<close>

partial_function (option) merge_loop ::
  "('a \<Rightarrow> 'k::len word) \<Rightarrow> 'a list \<Rightarrow> nat \<Rightarrow> nat \<Rightarrow> 'a list \<Rightarrow> nat \<Rightarrow> nat \<Rightarrow> nat
     \<Rightarrow> ('a list \<times> nat \<times> nat \<times> nat) option" where
  "merge_loop get_key l a b d i j k =
     (if get_key (l ! (a + j)) < get_key (l ! i)
      then (if j + 1 = b then Some (d[k := l ! (a + j)], i, j + 1, k + 1)
            else merge_loop get_key l a b (d[k := l ! (a + j)]) i (j + 1) (k + 1))
      else (if i + 1 = a then Some (d[k := l ! i], i + 1, j, k + 1)
            else merge_loop get_key l a b (d[k := l ! i]) (i + 1) j (k + 1)))"

declare merge_loop.simps [code]

text \<open>\<open>while(i<e) d[k++]=l[i++];\<close>\<close>

definition copy_rest :: "'a list \<Rightarrow> 'a list \<Rightarrow> nat \<Rightarrow> nat \<Rightarrow> nat \<Rightarrow> 'a list" where
  "copy_rest l d i e k = fst (fold (\<lambda>i (d, k). (d[k := l ! i], k + 1)) [i..<e] (d, k))"

function fallback_sort ::
  "('a \<Rightarrow> 'k::len word) \<Rightarrow> 'a list \<Rightarrow> 'a list \<Rightarrow> nat \<Rightarrow> int \<Rightarrow> (buf \<times> 'a list \<times> 'a list) option"
  where
  "fallback_sort get_key src tmp n destination =
     (if n \<le> 18 then
        (case insertion_sort get_key src tmp n destination of
           (src', tmp') \<Rightarrow> Some (if destination = 0 then Src else Tmp, src', tmp'))
      else
        let a = n div 2; b = n - a; nd = (if destination = 0 then 1 else 0) in
        do {
          (r1, s1, t1) \<leftarrow> fallback_sort get_key (window src 0 a) (window tmp 0 a) a nd;
          (r2, s2, t2) \<leftarrow> fallback_sort get_key (window src a b) (window tmp a b) b nd;
          let src1 = put_window (put_window src 0 s1) a s2;
              tmp1 = put_window (put_window tmp 0 t1) a t2;
              l = (if destination = 0 then tmp1 else src1);
              d = (if destination = 0 then src1 else tmp1) in
          do {
            (d1, i, j, k) \<leftarrow> merge_loop get_key l a b d 0 0 0;
            let d2 = (if i = a then copy_rest l d1 (a + j) (a + b) k
                      else copy_rest l d1 i a k) in
            Some (if destination = 0 then (Src, d2, tmp1) else (Tmp, src1, d2))
          }
        })"
  by pat_completeness auto
termination
  by (relation "measure (\<lambda>(get_key, src, tmp, n, destination). n)") auto

declare fallback_sort.simps [simp del]

section \<open>The counting pass\<close>

text \<open>
  One iteration of the counting loop, unrolled by two: the digit of the even element
  goes to an even slot of \<open>c\<close>, the digit of the odd element to an odd slot.
\<close>

definition count_two ::
  "('a \<Rightarrow> 'k::len word) \<Rightarrow> nat \<Rightarrow> nat \<Rightarrow> 'a list \<Rightarrow> nat \<Rightarrow> nat list \<Rightarrow> nat list" where
  "count_two get_key OFFSET MASK src i c =
     (let k0 = digit get_key OFFSET MASK (src ! (2 * i));
          k1 = digit get_key OFFSET MASK (src ! (2 * i + 1))
      in incr (incr c (2 * k0)) (2 * k1 + 1))"

text \<open>\<open>for(size_t j=0,s=0,t;j<SIZE;++j) {t=s; s+=c[2*j]+c[2*j+1]; c[j]=t;}\<close>\<close>

definition prefix_scan :: "nat \<Rightarrow> nat list \<Rightarrow> nat list" where
  "prefix_scan SIZE c =
     fst (fold (\<lambda>j (c, s). (c[j := s], s + c ! (2 * j) + c ! (2 * j + 1))) [0..<SIZE] (c, 0))"

text \<open>
  The cumulative distribution function of the three engines: the array \<open>c\<close> of
  \<open>2*SIZE\<close> counters after the counting loop, the odd element and the prefix scan.
\<close>

definition cdf ::
  "('a \<Rightarrow> 'k::len word) \<Rightarrow> nat \<Rightarrow> nat \<Rightarrow> nat \<Rightarrow> 'a list \<Rightarrow> nat \<Rightarrow> nat list" where
  "cdf get_key OFFSET MASK SIZE src n =
     (let c0 = replicate (2 * SIZE) 0;
          c1 = fold (count_two get_key OFFSET MASK src) [0..<n div 2] c0;
          c2 = (if n AND 1 \<noteq> 0 then incr c1 (2 * digit get_key OFFSET MASK (src ! (n - 1)))
                else c1)
      in prefix_scan SIZE c2)"

text \<open>
  \<open>for(size_t j=0;j+1<SIZE;++j) if(c[j+1]-c[j]==n) goto skip;\<close> as the test whether
  the jump is taken.
\<close>

definition same_bucket :: "nat list \<Rightarrow> nat \<Rightarrow> nat \<Rightarrow> bool" where
  "same_bucket c SIZE n = list_ex (\<lambda>j. c ! (j + 1) - c ! j = n) [0..<SIZE - 1]"

text \<open>The scatter loop of the out-of-place engines: \<open>dst[c[k]++]=src[i]\<close>.\<close>

definition scatter ::
  "('a \<Rightarrow> 'k::len word) \<Rightarrow> nat \<Rightarrow> nat \<Rightarrow> 'a list \<Rightarrow> 'a list \<Rightarrow> nat list \<Rightarrow> nat
     \<Rightarrow> 'a list \<times> nat list" where
  "scatter get_key OFFSET MASK src dst c n =
     fold (\<lambda>i (dst, c).
             let k = digit get_key OFFSET MASK (src ! i) in (dst[c ! k := src ! i], incr c k))
       [0..<n] (dst, c)"

text \<open>
  The pass of the out-of-place engines, from the declaration of \<open>c\<close> to the label
  \<open>skip\<close>: the values of the local variables \<open>src\<close>, \<open>dst\<close> and \<open>c\<close> at the label, and
  whether the two pointers were exchanged.
\<close>

definition pass ::
  "('a \<Rightarrow> 'k::len word) \<Rightarrow> nat \<Rightarrow> nat \<Rightarrow> nat \<Rightarrow> 'a list \<Rightarrow> 'a list \<Rightarrow> nat
     \<Rightarrow> 'a list \<times> 'a list \<times> nat list \<times> bool" where
  "pass get_key OFFSET MASK SIZE src dst n =
     (let c = cdf get_key OFFSET MASK SIZE src n in
      if same_bucket c SIZE n then (dst, src, c, True)
      else (case scatter get_key OFFSET MASK src dst c n of (dst', c') \<Rightarrow> (src, dst', c', False)))"

section \<open>radix\_sort\_msd\_impl\<close>

text \<open>
  The loop over the buckets, \<open>for(size_t j=0,b=0;j<SIZE;b=c[j++]) switch(c[j]-b)\<close>.
  \<open>rec\<close> is the recursive call of the default case, applied to the windows
  \<open>dst+b\<close>, \<open>src+b\<close> and the size; \<open>out\<close> is \<open>src\<close> when \<open>destination==0\<close> and
  \<open>dst\<close> otherwise.
\<close>

definition bucket_step ::
  "('a list \<Rightarrow> 'a list \<Rightarrow> nat \<Rightarrow> (buf \<times> 'a list \<times> 'a list) option) \<Rightarrow> ('a \<Rightarrow> 'k::len word)
     \<Rightarrow> int \<Rightarrow> nat \<Rightarrow> nat \<Rightarrow> 'a list \<Rightarrow> 'a list \<Rightarrow> ('a list \<times> 'a list) option" where
  "bucket_step rec get_key destination b m src dst =
     (if m = 0 then Some (src, dst)
      else if m = 1 then
        Some (if destination = 0 then (src[b := dst ! b], dst) else (src, dst[b := dst ! b]))
      else if m = 2 then
        (let flip = (get_key (dst ! (b + 1)) < get_key (dst ! b));
             L = dst ! (b + (if flip then 1 else 0));
             H = dst ! (b + (if flip then 0 else 1))
         in Some (if destination = 0 then (src[b := L, b + 1 := H], dst)
                  else (src, dst[b := L, b + 1 := H])))
      else
        do {
          (r, d', s') \<leftarrow> rec (window dst b m) (window src b m) m;
          Some (put_window src b s', put_window dst b d')
        })"

function msd_buckets ::
  "('a list \<Rightarrow> 'a list \<Rightarrow> nat \<Rightarrow> (buf \<times> 'a list \<times> 'a list) option) \<Rightarrow> ('a \<Rightarrow> 'k::len word)
     \<Rightarrow> int \<Rightarrow> nat list \<Rightarrow> nat \<Rightarrow> nat \<Rightarrow> nat \<Rightarrow> 'a list \<Rightarrow> 'a list \<Rightarrow> ('a list \<times> 'a list) option"
  where
  "msd_buckets rec get_key destination c SIZE j b src dst =
     (if j < SIZE then
        do {
          (src', dst') \<leftarrow> bucket_step rec get_key destination b (c ! j - b) src dst;
          msd_buckets rec get_key destination c SIZE (j + 1) (c ! j) src' dst'
        }
      else Some (src, dst))"
  by pat_completeness auto
termination
  by (relation "measure (\<lambda>(rec, get_key, destination, c, SIZE, j, b, src, dst). SIZE - j)") auto

declare msd_buckets.simps [simp del]

text \<open>
  The template instantiates itself at the width \<open>OFFSET\<close>; with \<open>BITS = 0\<close> the width
  never decreases and the instantiation does not end, which is the result \<open>None\<close>.
\<close>

function radix_sort_msd_impl ::
  "('a \<Rightarrow> 'k::len word) \<Rightarrow> nat \<Rightarrow> nat \<Rightarrow> nat \<Rightarrow> 'a list \<Rightarrow> 'a list \<Rightarrow> nat \<Rightarrow> int
     \<Rightarrow> (buf \<times> 'a list \<times> 'a list) option" where
  "radix_sort_msd_impl get_key WIDTH BITS THRESHOLD src dst n destination =
     (let LOG2SIZE = (if BITS < WIDTH then BITS else WIDTH);
          SIZE = 2 ^ LOG2SIZE;
          OFFSET = WIDTH - LOG2SIZE;
          MASK = SIZE - 1
      in
      if BITS = 0 then None
      else if n < THRESHOLD then fallback_sort get_key src dst n destination
      else
        (case pass get_key OFFSET MASK SIZE src dst n of
           (src1, dst1, c, exchanged) \<Rightarrow>
             let destination1 = (if exchanged then destination XOR 1 else destination);
                 out = (if destination1 = 0 then Src else Tmp)
             in
             do {
               (src2, dst2) \<leftarrow>
                 (if 0 < OFFSET then
                    msd_buckets
                      (\<lambda>s d m. radix_sort_msd_impl get_key OFFSET BITS THRESHOLD s d m
                                 (destination1 XOR 1))
                      get_key destination1 c SIZE 0 0 src1 dst1
                  else Some (src1, dst1));
               let src3 = (if OFFSET = 0 \<and> destination1 = 0 then copy_n dst2 src2 n else src2) in
               Some (if exchanged then swapped (out, src3, dst2) else (out, src3, dst2))
             }))"
  by pat_completeness auto
termination
  by (relation "measure (\<lambda>(get_key, WIDTH, BITS, THRESHOLD, src, dst, n, destination). WIDTH)")
     (auto split: if_splits)

declare radix_sort_msd_impl.simps [simp del]

definition radix_sort_msd ::
  "('a \<Rightarrow> 'k::len word) \<Rightarrow> nat \<Rightarrow> nat \<Rightarrow> 'a list \<Rightarrow> 'a list \<Rightarrow> nat \<Rightarrow> int
     \<Rightarrow> (buf \<times> 'a list \<times> 'a list) option" where
  "radix_sort_msd get_key BITS THRESHOLD src tmp n destination =
     radix_sort_msd_impl get_key LENGTH('k) BITS THRESHOLD src tmp n
       (if destination \<noteq> 1 then 0 else destination)"

section \<open>radix\_sort\_lsd\_impl\<close>

function radix_sort_lsd_impl ::
  "('a \<Rightarrow> 'k::len word) \<Rightarrow> nat \<Rightarrow> nat \<Rightarrow> 'a list \<Rightarrow> 'a list \<Rightarrow> nat
     \<Rightarrow> (buf \<times> 'a list \<times> 'a list) option" where
  "radix_sort_lsd_impl get_key WIDTH BITS src dst n =
     (let OFFSET = LENGTH('k) - WIDTH;
          SIZE = 2 ^ (if BITS < WIDTH then BITS else WIDTH);
          MASK = SIZE - 1
      in
      if BITS = 0 then None
      else
        (case pass get_key OFFSET MASK SIZE src dst n of
           (src1, dst1, c, exchanged) \<Rightarrow>
             do {
               res \<leftarrow>
                 (if BITS < WIDTH then
                    map_option swapped
                      (radix_sort_lsd_impl get_key (WIDTH - BITS) BITS dst1 src1 n)
                  else Some (Tmp, src1, dst1));
               Some (if exchanged then swapped res else res)
             }))"
  by pat_completeness auto
termination
  by (relation "measure (\<lambda>(get_key, WIDTH, BITS, src, dst, n). WIDTH)") auto

declare radix_sort_lsd_impl.simps [simp del]

definition radix_sort_lsd ::
  "('a \<Rightarrow> 'k::len word) \<Rightarrow> nat \<Rightarrow> 'a list \<Rightarrow> 'a list \<Rightarrow> nat \<Rightarrow> int
     \<Rightarrow> (buf \<times> 'a list \<times> 'a list) option" where
  "radix_sort_lsd get_key BITS src tmp n destination =
     do {
       (ret, src1, tmp1) \<leftarrow> radix_sort_lsd_impl get_key LENGTH('k) BITS src tmp n;
       let (ret, src1, tmp1) =
             (if destination = 0 \<and> ret \<noteq> Src then (Src, copy_n tmp1 src1 n, tmp1)
              else (ret, src1, tmp1));
           (ret, src1, tmp1) =
             (if destination = 1 \<and> ret \<noteq> Tmp then (Tmp, src1, copy_n src1 tmp1 n)
              else (ret, src1, tmp1))
       in Some (ret, src1, tmp1)
     }"

section \<open>radix\_sort\_msd\_inplace\_impl\<close>

text \<open>
  In the in-place engine \<open>d = c + SIZE\<close>: the bucket ends live in the upper half of the
  counter array, so \<open>d[j]\<close> is \<open>c ! (SIZE + j)\<close>.

  \<open>for(size_t j=0;j+1<SIZE;++j) d[j]=c[j+1]; d[SIZE-1]=n;\<close>
\<close>

definition bucket_ends :: "nat \<Rightarrow> nat \<Rightarrow> nat list \<Rightarrow> nat list" where
  "bucket_ends SIZE n c =
     (fold (\<lambda>j c. c[SIZE + j := c ! (j + 1)]) [0..<SIZE - 1] c)[SIZE + (SIZE - 1) := n]"

text \<open>
  The chase \<open>while(j!=h)\<close>: the element at \<open>k\<close> goes to the next free slot of its
  bucket \<open>h\<close>, and the element found there comes to \<open>k\<close>.
\<close>

partial_function (option) chase ::
  "('a \<Rightarrow> 'k::len word) \<Rightarrow> nat \<Rightarrow> nat \<Rightarrow> nat \<Rightarrow> nat \<Rightarrow> nat \<Rightarrow> 'a list \<Rightarrow> nat list
     \<Rightarrow> ('a list \<times> nat list) option" where
  "chase get_key OFFSET MASK j k h src c =
     (if j \<noteq> h then
        (let t = src ! (c ! h);
             src1 = src[c ! h := src ! k];
             c1 = incr c h;
             src2 = src1[k := t]
         in chase get_key OFFSET MASK j k (digit get_key OFFSET MASK t) src2 c1)
      else Some (src, c))"

declare chase.simps [code]

text \<open>\<open>for(;c[j]!=d[j];++c[j])\<close>\<close>

partial_function (option) fill_bucket ::
  "('a \<Rightarrow> 'k::len word) \<Rightarrow> nat \<Rightarrow> nat \<Rightarrow> nat \<Rightarrow> nat \<Rightarrow> 'a list \<Rightarrow> nat list
     \<Rightarrow> ('a list \<times> nat list) option" where
  "fill_bucket get_key OFFSET MASK SIZE j src c =
     (if c ! j \<noteq> c ! (SIZE + j) then
        do {
          sc \<leftarrow> chase get_key OFFSET MASK j (c ! j)
                  (digit get_key OFFSET MASK (src ! (c ! j))) src c;
          fill_bucket get_key OFFSET MASK SIZE j (fst sc) (incr (snd sc) j)
        }
      else Some (src, c))"

declare fill_bucket.simps [code]

text \<open>The scatter of the in-place engine, \<open>for(size_t j=0;j<SIZE;++j)\<close> from \<open>j\<close> on.\<close>

function permute ::
  "('a \<Rightarrow> 'k::len word) \<Rightarrow> nat \<Rightarrow> nat \<Rightarrow> nat \<Rightarrow> nat \<Rightarrow> 'a list \<Rightarrow> nat list
     \<Rightarrow> ('a list \<times> nat list) option" where
  "permute get_key OFFSET MASK SIZE j src c =
     (if j < SIZE then
        do {
          sc \<leftarrow> fill_bucket get_key OFFSET MASK SIZE j src c;
          permute get_key OFFSET MASK SIZE (j + 1) (fst sc) (snd sc)
        }
      else Some (src, c))"
  by pat_completeness auto
termination
  by (relation "measure (\<lambda>(get_key, OFFSET, MASK, SIZE, j, src, c). SIZE - j)") auto

declare permute.simps [simp del]

text \<open>
  The pass of the in-place engine, from the declaration of \<open>c\<close> to the label \<open>skip\<close>:
  the array and the counters at the label.
\<close>

definition inplace_pass ::
  "('a \<Rightarrow> 'k::len word) \<Rightarrow> nat \<Rightarrow> nat \<Rightarrow> nat \<Rightarrow> 'a list \<Rightarrow> nat \<Rightarrow> ('a list \<times> nat list) option"
  where
  "inplace_pass get_key OFFSET MASK SIZE src n =
     (let c = bucket_ends SIZE n (cdf get_key OFFSET MASK SIZE src n) in
      if same_bucket c SIZE n then Some (src, c)
      else permute get_key OFFSET MASK SIZE 0 src c)"

text \<open>
  \<open>for(size_t j=0,b=0;j<SIZE;b=d[j++]) switch(d[j]-b)\<close>; \<open>rec\<close> is the recursive call of
  the default case on the window \<open>src+b\<close>.
\<close>

definition inplace_bucket_step ::
  "('a list \<Rightarrow> nat \<Rightarrow> 'a list option) \<Rightarrow> ('a \<Rightarrow> 'k::len word) \<Rightarrow> nat \<Rightarrow> nat \<Rightarrow> 'a list
     \<Rightarrow> 'a list option" where
  "inplace_bucket_step rec get_key b m src =
     (if m = 0 \<or> m = 1 then Some src
      else if m = 2 then
        Some (if get_key (src ! (b + 1)) < get_key (src ! b)
              then (let tmp = src ! (b + 1) in src[b + 1 := src ! b, b := tmp])
              else src)
      else
        do {
          s' \<leftarrow> rec (window src b m) m;
          Some (put_window src b s')
        })"

function inplace_buckets ::
  "('a list \<Rightarrow> nat \<Rightarrow> 'a list option) \<Rightarrow> ('a \<Rightarrow> 'k::len word) \<Rightarrow> nat list \<Rightarrow> nat \<Rightarrow> nat \<Rightarrow> nat
     \<Rightarrow> 'a list \<Rightarrow> 'a list option" where
  "inplace_buckets rec get_key c SIZE j b src =
     (if j < SIZE then
        do {
          src' \<leftarrow> inplace_bucket_step rec get_key b (c ! (SIZE + j) - b) src;
          inplace_buckets rec get_key c SIZE (j + 1) (c ! (SIZE + j)) src'
        }
      else Some src)"
  by pat_completeness auto
termination
  by (relation "measure (\<lambda>(rec, get_key, c, SIZE, j, b, src). SIZE - j)") auto

declare inplace_buckets.simps [simp del]

text \<open>
  \<open>T tmp[THRESHOLD]\<close> is an array of \<open>THRESHOLD\<close> default-constructed elements; the
  value \<open>dflt\<close> stands for such an element.
\<close>

function radix_sort_msd_inplace_impl ::
  "('a \<Rightarrow> 'k::len word) \<Rightarrow> 'a \<Rightarrow> nat \<Rightarrow> nat \<Rightarrow> nat \<Rightarrow> 'a list \<Rightarrow> nat \<Rightarrow> 'a list option" where
  "radix_sort_msd_inplace_impl get_key dflt WIDTH BITS THRESHOLD src n =
     (let LOG2SIZE = (if BITS < WIDTH then BITS else WIDTH);
          SIZE = 2 ^ LOG2SIZE;
          OFFSET = WIDTH - LOG2SIZE;
          MASK = SIZE - 1
      in
      if BITS = 0 then None
      else if n < THRESHOLD then
        map_option (\<lambda>(r, src', tmp'). src')
          (fallback_sort get_key src (replicate THRESHOLD dflt) n 0)
      else
        do {
          (src1, c) \<leftarrow> inplace_pass get_key OFFSET MASK SIZE src n;
          (if 0 < OFFSET then
             inplace_buckets
               (\<lambda>s m. radix_sort_msd_inplace_impl get_key dflt OFFSET BITS THRESHOLD s m)
               get_key c SIZE 0 0 src1
           else Some src1)
        })"
  by pat_completeness auto
termination
  by (relation "measure (\<lambda>(get_key, dflt, WIDTH, BITS, THRESHOLD, src, n). WIDTH)")
     (auto split: if_splits)

declare radix_sort_msd_inplace_impl.simps [simp del]

section \<open>The exported functions\<close>

text \<open>\<open>sizeof_T\<close> is \<open>sizeof(T)\<close>, in bytes; \<open>CHAR_BIT\<close> is 8.\<close>

definition CHAR_BIT :: nat where
  "CHAR_BIT = 8"

definition radix_sort_stable ::
  "('a \<Rightarrow> 'k::len word) \<Rightarrow> nat \<Rightarrow> 'a list \<Rightarrow> 'a list \<Rightarrow> nat \<Rightarrow> int \<Rightarrow> int
     \<Rightarrow> (buf \<times> 'a list \<times> 'a list) option" where
  "radix_sort_stable get_key sizeof_T src tmp n destination mode =
     (if mode \<noteq> 0 \<and>
         (mode = 1 \<or> n < 1500 \<or>
          LENGTH('k) > 40 \<or>
          (sizeof_T * CHAR_BIT > 64 \<and> n > 10000000 div sizeof_T))
      then
        (let bits = (8::nat);
             bits = (if n > 4000 \<and> n < 60000 then 11 else bits);
             bits = (if n > 2000000 \<and> n < 9000000 then 11 else bits)
         in
         if bits = 8 then radix_sort_msd get_key 8 128 src tmp n destination
         else radix_sort_msd get_key 11 256 src tmp n destination)
      else radix_sort_lsd get_key 8 src tmp n destination)"

definition radix_sort_inplace ::
  "('a \<Rightarrow> 'k::len word) \<Rightarrow> 'a \<Rightarrow> 'a list \<Rightarrow> nat \<Rightarrow> 'a list option" where
  "radix_sort_inplace get_key dflt src n =
     (let bits = (8::nat);
          bits = (if n > 4000 \<and> n < 60000 then 11 else bits);
          bits = (if n > 2000000 \<and> n < 9000000 then 11 else bits)
      in
      if bits = 8 then radix_sort_msd_inplace_impl get_key dflt LENGTH('k) 8 128 src n
      else radix_sort_msd_inplace_impl get_key dflt LENGTH('k) 11 256 src n)"

section \<open>Notions used in the specification\<close>

text \<open>The number of elements of \<open>xs\<close> whose digit is \<open>v\<close>, and whose digit is below \<open>v\<close>.\<close>

definition occ :: "('a \<Rightarrow> nat) \<Rightarrow> 'a list \<Rightarrow> nat \<Rightarrow> nat" where
  "occ f xs v = length (filter (\<lambda>x. f x = v) xs)"

definition below :: "('a \<Rightarrow> nat) \<Rightarrow> 'a list \<Rightarrow> nat \<Rightarrow> nat" where
  "below f xs v = length (filter (\<lambda>x. f x < v) xs)"

text \<open>
  The counting pass as the specification describes it: one histogram of the digit
  values, one counter per value, and its exclusive prefix sum.
\<close>

definition histogram ::
  "('a \<Rightarrow> 'k::len word) \<Rightarrow> nat \<Rightarrow> nat \<Rightarrow> nat \<Rightarrow> 'a list \<Rightarrow> nat \<Rightarrow> nat list" where
  "histogram get_key OFFSET MASK SIZE src n =
     fold (\<lambda>i h. incr h (digit get_key OFFSET MASK (src ! i))) [0..<n] (replicate SIZE 0)"

definition exclusive_prefix_sum :: "nat list \<Rightarrow> nat list" where
  "exclusive_prefix_sum h = map (\<lambda>j. sum_list (take j h)) [0..<length h]"

text \<open>The elements of \<open>xs\<close> grouped by digit, each group in the order of \<open>xs\<close>.\<close>

definition buckets :: "('a \<Rightarrow> nat) \<Rightarrow> nat \<Rightarrow> 'a list \<Rightarrow> 'a list" where
  "buckets f S xs = concat (map (\<lambda>v. filter (\<lambda>x. f x = v) xs) [0..<S])"

text \<open>The key of an element as a natural number; the unsigned order of keys is its order.\<close>

definition key_of :: "('a \<Rightarrow> 'k::len word) \<Rightarrow> 'a \<Rightarrow> nat" where
  "key_of get_key x = unat (get_key x)"

text \<open>The stable merge of two lists: on a tie the element of the left list goes first.\<close>

fun smerge :: "('a \<Rightarrow> nat) \<Rightarrow> 'a list \<Rightarrow> 'a list \<Rightarrow> 'a list" where
  "smerge f [] ys = ys"
| "smerge f xs [] = xs"
| "smerge f (x # xs) (y # ys) =
     (if f y < f x then y # smerge f (x # xs) ys else x # smerge f xs (y # ys))"

text \<open>
  The condition under which the loop over the buckets, started at bucket \<open>j\<close> with
  \<open>b\<close> the end of the previous bucket, sorts the rest of \<open>xs\<close>: the bucket ends
  \<open>e j\<close>, \<open>e (j+1)\<close>, \<dots> split \<open>drop b xs\<close> into segments, the keys within a
  segment agree above bit \<open>off\<close>, and no key of a segment exceeds a key behind it.
\<close>

function segs_ok :: "('a \<Rightarrow> nat) \<Rightarrow> nat \<Rightarrow> (nat \<Rightarrow> nat) \<Rightarrow> nat \<Rightarrow> nat \<Rightarrow> nat \<Rightarrow> 'a list \<Rightarrow> bool"
  where
  "segs_ok key off e S j b xs =
     (if j < S then
        b \<le> e j \<and> e j \<le> length xs \<and>
        (\<forall>x\<in>set (window xs b (e j - b)). \<forall>y\<in>set (window xs b (e j - b)).
            key x div 2 ^ off = key y div 2 ^ off) \<and>
        (\<forall>x\<in>set (window xs b (e j - b)). \<forall>y\<in>set (drop (e j) xs). key x \<le> key y) \<and>
        segs_ok key off e S (j + 1) (e j) xs
      else b = length xs)"
  by pat_completeness auto
termination
  by (relation "measure (\<lambda>(key, off, e, S, j, b, xs). S - j)") auto

declare segs_ok.simps [simp del]

text \<open>
  The dispatcher as the specification words it: when the MSD engine is chosen, and when
  the radix is 11 bits wide.
\<close>

definition msd_selected :: "int \<Rightarrow> nat \<Rightarrow> nat \<Rightarrow> nat \<Rightarrow> bool" where
  "msd_selected mode n key_bits sizeof_T \<longleftrightarrow>
     mode = 1 \<or>
     (mode \<noteq> 0 \<and> mode \<noteq> 1 \<and>
      (n < 1500 \<or> key_bits > 40 \<or> (sizeof_T * 8 > 64 \<and> n > 10000000 div sizeof_T)))"

definition wide_radix :: "nat \<Rightarrow> bool" where
  "wide_radix n \<longleftrightarrow> (4000 < n \<and> n < 60000) \<or> (2000000 < n \<and> n < 9000000)"

text \<open>
  The state of the in-place permutation: \<open>src\<close> is a rearrangement of \<open>src0\<close>, the
  upper half of \<open>c\<close> holds the bucket ends, the cursor \<open>c ! v\<close> lies within bucket
  \<open>v\<close>, and the elements of bucket \<open>v\<close> before the cursor have the digit \<open>v\<close>.
  \<open>slack\<close> is the number of slots not yet passed by a cursor.
\<close>

definition perm_inv :: "('a \<Rightarrow> nat) \<Rightarrow> nat \<Rightarrow> 'a list \<Rightarrow> 'a list \<Rightarrow> nat list \<Rightarrow> bool" where
  "perm_inv f S src0 src c \<longleftrightarrow>
     length c = 2 * S \<and> mset src = mset src0 \<and>
     (\<forall>v<S. c ! (S + v) = below f src0 (Suc v) \<and> below f src0 v \<le> c ! v \<and> c ! v \<le> c ! (S + v) \<and>
        (\<forall>i. below f src0 v \<le> i \<and> i < c ! v \<longrightarrow> f (src ! i) = v))"

definition slack :: "nat \<Rightarrow> nat list \<Rightarrow> nat" where
  "slack S c = (\<Sum>v<S. c ! (S + v) - c ! v)"

text \<open>
  The number of nested calls of the MSD recursion. \<open>radix_sort_msd_impl\<close> and
  \<open>radix_sort_msd_inplace_impl\<close> at \<open>WIDTH\<close> call themselves at \<open>OFFSET\<close>, and only
  when \<open>OFFSET > 0\<close>; \<open>msd_depth\<close> counts the levels of that chain, the first call included.
\<close>

function msd_depth :: "nat \<Rightarrow> nat \<Rightarrow> nat" where
  "msd_depth WIDTH BITS =
     (let LOG2SIZE = (if BITS < WIDTH then BITS else WIDTH);
          OFFSET = WIDTH - LOG2SIZE
      in
      if BITS = 0 then 0
      else if 0 < OFFSET then 1 + msd_depth OFFSET BITS
      else 1)"
  by pat_completeness auto
termination
  by (relation "measure (\<lambda>(WIDTH, BITS). WIDTH)") (auto split: if_splits)

declare msd_depth.simps [simp del]

section \<open>The counting pass computes the bucket boundaries\<close>

lemma digit_div_mod:
  "digit get_key OFFSET (2 ^ L - 1) x = (unat (get_key x) div 2 ^ OFFSET) mod 2 ^ L"
proof -
  have m: "2 ^ L - 1 = (mask L :: nat)"
    by (simp add: mask_eq_exp_minus_1)
  have d: "unat (drop_bit OFFSET (get_key x)) = unat (get_key x) div 2 ^ OFFSET"
    unfolding unat_drop_bit_eq by (rule drop_bit_eq_div)
  show ?thesis
    unfolding digit_def m d
    by (simp add: take_bit_eq_mod flip: take_bit_eq_mask)
qed

lemma digit_less: "digit get_key OFFSET (2 ^ L - 1) x < 2 ^ L"
  unfolding digit_div_mod by simp

lemma length_incr [simp]: "length (incr c i) = length c"
  by (simp add: incr_def)

lemma nth_incr: "i < length c \<Longrightarrow> incr c i ! j = (if j = i then c ! i + 1 else c ! j)"
  by (simp add: incr_def)

lemma occ_Nil [simp]: "occ f [] v = 0"
  by (simp add: occ_def)

lemma occ_append [simp]: "occ f (xs @ ys) v = occ f xs v + occ f ys v"
  by (simp add: occ_def)

lemma occ_Cons [simp]: "occ f (x # xs) v = (if f x = v then 1 else 0) + occ f xs v"
  by (simp add: occ_def)

lemma below_0 [simp]: "below f xs 0 = 0"
  by (simp add: below_def)

lemma below_Suc: "below f xs (Suc v) = below f xs v + occ f xs v"
  by (induction xs) (auto simp: below_def occ_def)

lemma below_eq_sum: "below f xs j = (\<Sum>v<j. occ f xs v)"
  by (induction j) (simp_all add: below_Suc)

lemma below_mono: "i \<le> j \<Longrightarrow> below f xs i \<le> below f xs j"
  unfolding below_def
proof (induction xs)
  case Nil then show ?case by simp
next
  case (Cons x xs) then show ?case by auto
qed

lemma below_all: "\<forall>x\<in>set xs. f x < j \<Longrightarrow> below f xs j = length xs"
  by (simp add: below_def)

lemma count_two_fold:
  fixes get_key :: "'a \<Rightarrow> 'k::len word" and OFFSET MASK SIZE :: nat
  defines "f \<equiv> digit get_key OFFSET MASK"
  defines "cnt \<equiv> \<lambda>src m. fold (count_two get_key OFFSET MASK src) [0..<m] (replicate (2 * SIZE) 0)"
  assumes "MASK = 2 ^ L - 1" "SIZE = 2 ^ L" "2 * m \<le> length src"
  shows "length (cnt src m) = 2 * SIZE \<and>
         (\<forall>v<SIZE. cnt src m ! (2 * v) + cnt src m ! (2 * v + 1) = occ f (take (2 * m) src) v)"
  using assms(5) unfolding cnt_def
proof (induction m)
  case 0
  then show ?case by simp
next
  case (Suc m)
  let ?c = "fold (count_two get_key OFFSET MASK src) [0..<m] (replicate (2 * SIZE) 0)"
  from Suc have IH: "length ?c = 2 * SIZE"
    "\<And>v. v < SIZE \<Longrightarrow> ?c ! (2 * v) + ?c ! (2 * v + 1) = occ f (take (2 * m) src) v"
    by auto
  have k0: "f (src ! (2 * m)) < SIZE" and k1: "f (src ! (2 * m + 1)) < SIZE"
    using assms(3,4) digit_less[of get_key OFFSET L] by (simp_all add: f_def)
  have tk: "take (2 * Suc m) src = take (2 * m) src @ [src ! (2 * m), src ! (2 * m + 1)]"
    using Suc.prems by (simp add: take_Suc_conv_app_nth)
  have step: "fold (count_two get_key OFFSET MASK src) [0..<Suc m] (replicate (2 * SIZE) 0)
      = incr (incr ?c (2 * f (src ! (2 * m)))) (2 * f (src ! (2 * m + 1)) + 1)"
    by (simp add: count_two_def f_def Let_def)
  show ?case
    unfolding step tk
  proof (intro conjI allI impI)
    show "length (incr (incr ?c (2 * f (src ! (2 * m)))) (2 * f (src ! (2 * m + 1)) + 1)) = 2 * SIZE"
      using IH(1) by simp
  next
    fix v assume v: "v < SIZE"
    have neq: "2 * v \<noteq> 2 * f (src ! (2 * m + 1)) + 1" "2 * v + 1 \<noteq> 2 * f (src ! (2 * m))"
      by presburger+
    show "incr (incr ?c (2 * f (src ! (2 * m)))) (2 * f (src ! (2 * m + 1)) + 1) ! (2 * v) +
          incr (incr ?c (2 * f (src ! (2 * m)))) (2 * f (src ! (2 * m + 1)) + 1) ! (2 * v + 1) =
          occ f (take (2 * m) src @ [src ! (2 * m), src ! (2 * m + 1)]) v"
      using IH(1) IH(2)[OF v] k0 k1 v neq
      by (auto simp: nth_incr)
  qed
qed


lemma prefix_fold:
  fixes c :: "nat list"
  defines "g \<equiv> \<lambda>v. c ! (2 * v) + c ! (2 * v + 1)"
  defines "st \<equiv> \<lambda>J. fold (\<lambda>j (c, s). (c[j := s], s + c ! (2 * j) + c ! (2 * j + 1))) [0..<J] (c, 0)"
  assumes "J \<le> length c"
  shows "snd (st J) = (\<Sum>v<J. g v) \<and> length (fst (st J)) = length c \<and>
         (\<forall>i<J. fst (st J) ! i = (\<Sum>v<i. g v)) \<and> (\<forall>i\<ge>J. fst (st J) ! i = c ! i)"
  using assms(3)
proof (induction J)
  case 0
  then show ?case by (simp add: st_def)
next
  case (Suc J)
  obtain c' s where cs: "st J = (c', s)" by (cases "st J")
  from Suc cs have IH: "s = (\<Sum>v<J. g v)" "length c' = length c"
    "\<And>i. i < J \<Longrightarrow> c' ! i = (\<Sum>v<i. g v)" "\<And>i. i \<ge> J \<Longrightarrow> c' ! i = c ! i"
    by auto
  have step: "st (Suc J) = (c'[J := s], s + c' ! (2 * J) + c' ! (2 * J + 1))"
    using cs by (simp add: st_def)
  have "c' ! (2 * J) = c ! (2 * J)" "c' ! (2 * J + 1) = c ! (2 * J + 1)"
    by (simp_all add: IH(4))
  then show ?case
    unfolding step using IH Suc.prems
    by (auto simp: g_def nth_list_update less_Suc_eq)
qed

lemma prefix_scan_spec:
  assumes "SIZE \<le> length c"
  shows "length (prefix_scan SIZE c) = length c"
    and "j < SIZE \<Longrightarrow> prefix_scan SIZE c ! j = (\<Sum>v<j. c ! (2 * v) + c ! (2 * v + 1))"
  using prefix_fold[OF assms] by (simp_all add: prefix_scan_def)

lemma cdf_spec:
  fixes get_key :: "'a \<Rightarrow> 'k::len word"
  assumes "MASK = 2 ^ L - 1" "SIZE = 2 ^ L" "n \<le> length src"
  shows "length (cdf get_key OFFSET MASK SIZE src n) = 2 * SIZE"
    and "j < SIZE \<Longrightarrow> cdf get_key OFFSET MASK SIZE src n ! j
           = below (digit get_key OFFSET MASK) (take n src) j"
proof -
  let ?f = "digit get_key OFFSET MASK"
  let ?c1 = "fold (count_two get_key OFFSET MASK src) [0..<n div 2] (replicate (2 * SIZE) 0)"
  let ?c2 = "if n AND 1 \<noteq> 0 then incr ?c1 (2 * ?f (src ! (n - 1))) else ?c1"
  have m: "2 * (n div 2) \<le> length src" using assms(3) by simp
  note c1 = count_two_fold[OF assms(1,2) m, of get_key OFFSET]
  have len2: "length ?c2 = 2 * SIZE" using c1 by simp
  have occ2: "?c2 ! (2 * v) + ?c2 ! (2 * v + 1) = occ ?f (take n src) v" if v: "v < SIZE" for v
  proof (cases "n AND 1 \<noteq> 0")
    case False
    then have "even n" by (simp add: and_one_eq even_iff_mod_2_eq_zero)
    then have "2 * (n div 2) = n" by simp
    with c1 v False show ?thesis by simp
  next
    case True
    then have "odd n" by (simp add: and_one_eq even_iff_mod_2_eq_zero)
    then have n: "n = Suc (2 * (n div 2))" by simp
    have tk: "take n src = take (2 * (n div 2)) src @ [src ! (n - 1)]"
      using assms(3) n by (metis Suc_le_lessD diff_Suc_1 take_Suc_conv_app_nth)
    have k: "?f (src ! (n - 1)) < SIZE"
      using assms(1,2) digit_less[of get_key OFFSET L] by simp
    have neq: "2 * v + 1 \<noteq> 2 * ?f (src ! (n - 1))" by presburger
    show ?thesis
      unfolding tk using True c1 v k neq by (auto simp: nth_incr)
  qed
  have cdf: "cdf get_key OFFSET MASK SIZE src n = prefix_scan SIZE ?c2"
    by (simp add: cdf_def Let_def)
  have le: "SIZE \<le> length ?c2" using len2 by simp
  show "length (cdf get_key OFFSET MASK SIZE src n) = 2 * SIZE"
    unfolding cdf using prefix_scan_spec(1)[OF le] len2 by simp
  show "cdf get_key OFFSET MASK SIZE src n ! j = below ?f (take n src) j" if j: "j < SIZE"
  proof -
    have "prefix_scan SIZE ?c2 ! j = (\<Sum>v<j. ?c2 ! (2 * v) + ?c2 ! (2 * v + 1))"
      by (rule prefix_scan_spec(2)[OF le j])
    also have "\<dots> = (\<Sum>v<j. occ ?f (take n src) v)"
      using j by (intro sum.cong refl occ2) simp
    finally show ?thesis unfolding cdf by (simp add: below_eq_sum)
  qed
qed

lemma histogram_fold:
  fixes get_key :: "'a \<Rightarrow> 'k::len word"
  assumes "m \<le> length src"
  shows "length (histogram get_key OFFSET (2 ^ L - 1) (2 ^ L) src m) = 2 ^ L \<and>
         (\<forall>v<2 ^ L. histogram get_key OFFSET (2 ^ L - 1) (2 ^ L) src m ! v
                      = occ (digit get_key OFFSET (2 ^ L - 1)) (take m src) v)"
  using assms
proof (induction m)
  case 0
  then show ?case by (simp add: histogram_def)
next
  case (Suc m)
  let ?h = "histogram get_key OFFSET (2 ^ L - 1) (2 ^ L) src m"
  have step: "histogram get_key OFFSET (2 ^ L - 1) (2 ^ L) src (Suc m)
      = incr ?h (digit get_key OFFSET (2 ^ L - 1) (src ! m))"
    by (simp add: histogram_def)
  have tk: "take (Suc m) src = take m src @ [src ! m]"
    using Suc.prems by (simp add: take_Suc_conv_app_nth)
  from Suc have IH: "length ?h = 2 ^ L"
    "\<And>v. v < 2 ^ L \<Longrightarrow> ?h ! v = occ (digit get_key OFFSET (2 ^ L - 1)) (take m src) v"
    by auto
  show ?case
    unfolding step tk using IH digit_less[of get_key OFFSET L "src ! m"]
    by (auto simp: nth_incr)
qed

lemma sum_list_take: "j \<le> length h \<Longrightarrow> sum_list (take j h) = (\<Sum>v<j. h ! v)"
  for h :: "nat list"
  by (induction j) (simp_all add: take_Suc_conv_app_nth)


section \<open>The scatter is a stable partition by digit\<close>

lemma occ_take_le: "occ f (take i xs) v \<le> occ f xs v"
proof -
  have "occ f xs v = occ f (take i xs) v + occ f (drop i xs) v"
    by (metis append_take_drop_id occ_append)
  then show ?thesis by simp
qed

lemma occ_take_less:
  assumes "i < length xs" "f (xs ! i) = v"
  shows "occ f (take i xs) v < occ f xs v"
proof -
  have "xs = take i xs @ xs ! i # drop (Suc i) xs"
    using assms(1) by (rule id_take_nth_drop)
  then have "occ f xs v = occ f (take i xs) v + occ f (xs ! i # drop (Suc i) xs) v"
    by (metis occ_append)
  with assms(2) show ?thesis by simp
qed

lemma below_le_length: "below f xs v \<le> length xs"
  by (simp add: below_def)

lemma bucket_end_le: "v < w \<Longrightarrow> below f xs v + occ f xs v \<le> below f xs w"
  using below_mono[of "Suc v" w f xs] by (simp add: below_Suc)

lemma scatter_inv:
  fixes get_key :: "'a \<Rightarrow> 'k::len word" and OFFSET L :: nat
  defines "f \<equiv> digit get_key OFFSET (2 ^ L - 1)"
  assumes len: "length src = n" "length dst = n"
    and c0: "\<And>v. v < 2 ^ L \<Longrightarrow> c0 ! v = below f src v" "2 ^ L \<le> length c0"
    and i: "i \<le> n"
  shows "case scatter get_key OFFSET (2 ^ L - 1) src dst c0 i of (d, c) \<Rightarrow>
           length d = n \<and> length c = length c0 \<and>
           (\<forall>v<2 ^ L. c ! v = below f src v + occ f (take i src) v) \<and>
           (\<forall>v<2 ^ L. \<forall>p<occ f (take i src) v.
               d ! (below f src v + p) = filter (\<lambda>x. f x = v) (take i src) ! p)"
  using i
proof (induction i)
  case 0
  then show ?case using len c0 by (simp add: scatter_def)
next
  case (Suc i)
  obtain d c where dc: "scatter get_key OFFSET (2 ^ L - 1) src dst c0 i = (d, c)"
    by (cases "scatter get_key OFFSET (2 ^ L - 1) src dst c0 i")
  from Suc dc have IH: "length d = n" "length c = length c0"
    "\<And>v. v < 2 ^ L \<Longrightarrow> c ! v = below f src v + occ f (take i src) v"
    "\<And>v p. v < 2 ^ L \<Longrightarrow> p < occ f (take i src) v \<Longrightarrow>
        d ! (below f src v + p) = filter (\<lambda>x. f x = v) (take i src) ! p"
    by auto
  let ?k = "f (src ! i)"
  have k: "?k < 2 ^ L" unfolding f_def by (rule digit_less)
  have i: "i < length src" using Suc.prems len by simp
  have step: "scatter get_key OFFSET (2 ^ L - 1) src dst c0 (Suc i)
      = (d[c ! ?k := src ! i], incr c ?k)"
    using dc by (simp add: scatter_def f_def Let_def)
  have tk: "take (Suc i) src = take i src @ [src ! i]"
    using i by (simp add: take_Suc_conv_app_nth)
  have ck: "c ! ?k = below f src ?k + occ f (take i src) ?k" by (rule IH(3)[OF k])
  have lt: "occ f (take i src) ?k < occ f src ?k" by (rule occ_take_less[OF i refl])
  have ckn: "c ! ?k < n"
  proof -
    have "c ! ?k < below f src (Suc ?k)" using ck lt by (simp add: below_Suc)
    also have "\<dots> \<le> n" using below_le_length[of f src] len by simp
    finally show ?thesis .
  qed
  have klen: "?k < length c" using k c0(2) IH(2) by simp
  show ?case
    unfolding step prod.case
  proof (intro conjI allI impI)
    show "length (d[c ! ?k := src ! i]) = n" using IH(1) by simp
    show "length (incr c ?k) = length c0" using IH(2) by simp
  next
    fix v assume v: "v < (2::nat) ^ L"
    show "incr c ?k ! v = below f src v + occ f (take (Suc i) src) v"
      unfolding tk using IH(3)[OF v] klen by (auto simp: nth_incr)
  next
    fix v p assume v: "v < (2::nat) ^ L" and p: "p < occ f (take (Suc i) src) v"
    show "d[c ! ?k := src ! i] ! (below f src v + p)
        = filter (\<lambda>x. f x = v) (take (Suc i) src) ! p"
    proof (cases "v = ?k \<and> p = occ f (take i src) v")
      case True
      then have "below f src v + p = c ! ?k" using ck by simp
      moreover have "filter (\<lambda>x. f x = v) (take (Suc i) src) ! p = src ! i"
        unfolding tk using True by (simp add: occ_def nth_append)
      ultimately show ?thesis using ckn IH(1) by simp
    next
      case False
      have p': "p < occ f (take i src) v"
        using p False unfolding tk by (auto split: if_splits)
      have neq: "below f src v + p \<noteq> c ! ?k"
      proof (cases "v = ?k")
        case True
        with p' ck show ?thesis by simp
      next
        case False
        then consider "v < ?k" | "?k < v" by linarith
        then show ?thesis
        proof cases
          case 1
          have "below f src v + p < below f src v + occ f src v"
            using p' occ_take_le[of f i src v] by simp
          also have "\<dots> \<le> below f src ?k" by (rule bucket_end_le[OF 1])
          finally show ?thesis using ck by simp
        next
          case 2
          have "c ! ?k < below f src ?k + occ f src ?k" using ck lt by simp
          also have "\<dots> \<le> below f src v" by (rule bucket_end_le[OF 2])
          finally show ?thesis by simp
        qed
      qed
      have "filter (\<lambda>x. f x = v) (take (Suc i) src) ! p = filter (\<lambda>x. f x = v) (take i src) ! p"
        unfolding tk using p' by (simp add: nth_append occ_def)
      then show ?thesis using neq IH(4)[OF v p'] by simp
    qed
  qed
qed

lemma concat_segments:
  fixes B :: "nat \<Rightarrow> 'a list"
  assumes "length xs = (\<Sum>v<S. length (B v))"
    and "\<And>v p. v < S \<Longrightarrow> p < length (B v) \<Longrightarrow> xs ! ((\<Sum>u<v. length (B u)) + p) = B v ! p"
  shows "xs = concat (map B [0..<S])"
  using assms
proof (induction S arbitrary: xs)
  case 0
  then show ?case by simp
next
  case (Suc S)
  let ?m = "\<Sum>v<S. length (B v)"
  have len: "length xs = ?m + length (B S)" using Suc.prems(1) by simp
  have "take ?m xs = concat (map B [0..<S])"
  proof (rule Suc.IH)
    show "length (take ?m xs) = ?m" using len by simp
    fix v p assume v: "v < S" and p: "p < length (B v)"
    have "(\<Sum>u<v. length (B u)) + length (B v) \<le> ?m"
    proof -
      have "(\<Sum>u<Suc v. length (B u)) \<le> ?m"
        using v by (intro sum_mono2) auto
      then show ?thesis by simp
    qed
    then have "(\<Sum>u<v. length (B u)) + p < ?m" using p by simp
    then show "take ?m xs ! ((\<Sum>u<v. length (B u)) + p) = B v ! p"
      using Suc.prems(2)[of v p] v p by simp
  qed
  moreover have "drop ?m xs = B S"
  proof (rule nth_equalityI)
    show "length (drop ?m xs) = length (B S)" using len by simp
    fix p assume "p < length (drop ?m xs)"
    then have p: "p < length (B S)" using len by simp
    then show "drop ?m xs ! p = B S ! p"
      using Suc.prems(2)[of S p] len by simp
  qed
  ultimately have "xs = concat (map B [0..<S]) @ B S"
    by (metis append_take_drop_id)
  then show ?case by simp
qed

lemma filter_buckets:
  "filter P (buckets f S xs) = buckets f S (filter P xs)"
  by (induction S) (simp_all add: buckets_def conj_commute)

lemma buckets_single:
  assumes "\<And>x. x \<in> set xs \<Longrightarrow> f x = k" "k < S"
  shows "buckets f S xs = xs"
  using assms(2)
proof (induction S)
  case 0
  then show ?case by simp
next
  case (Suc S)
  have all: "filter (\<lambda>x. f x = k) xs = xs" using assms(1) by (simp add: filter_id_conv)
  show ?case
  proof (cases "k = S")
    case True
    have "buckets f S xs = []"
      using assms(1) True by (auto simp: buckets_def filter_empty_conv)
    then show ?thesis using all True by (simp add: buckets_def)
  next
    case False
    then have "filter (\<lambda>x. f x = S) xs = []"
      using assms(1) by (auto simp: filter_empty_conv)
    then show ?thesis using Suc False by (simp add: buckets_def)
  qed
qed

lemma mset_buckets: "mset (buckets f S xs) = mset (filter (\<lambda>x. f x < S) xs)"
proof (induction S)
  case 0
  then show ?case by (simp add: buckets_def)
next
  case (Suc S)
  have "mset (filter (\<lambda>x. f x < Suc S) xs)
      = mset (filter (\<lambda>x. f x < S) xs) + mset (filter (\<lambda>x. f x = S) xs)"
    by (induction xs) auto
  with Suc show ?case by (simp add: buckets_def)
qed

lemma set_buckets: "set (buckets f S xs) = {x \<in> set xs. f x < S}"
  using mset_buckets[of f S xs] by (metis set_mset_mset set_filter)

lemma sorted_buckets: "sorted (map f (buckets f S xs))"
proof (induction S)
  case 0
  then show ?case by (simp add: buckets_def)
next
  case (Suc S)
  have b: "buckets f (Suc S) xs = buckets f S xs @ filter (\<lambda>x. f x = S) xs"
    by (simp add: buckets_def)
  have "sorted (map f (filter (\<lambda>x. f x = S) xs))"
    by (induction xs) auto
  with Suc show ?case
    unfolding b by (auto simp: sorted_append set_buckets)
qed

lemma buckets_sort_key:
  assumes "\<And>x. x \<in> set xs \<Longrightarrow> f x < S"
  shows "buckets f S xs = sort_key f xs"
proof (rule sym, rule properties_for_sort_key)
  have all: "filter (\<lambda>x. f x < S) xs = xs" using assms by (simp add: filter_id_conv)
  show "mset (buckets f S xs) = mset xs" by (simp add: mset_buckets all)
  show "sorted (map f (buckets f S xs))" by (rule sorted_buckets)
  fix k assume "k \<in> set (buckets f S xs)"
  then have k: "f k < S" by (simp add: set_buckets)
  have "buckets f S (filter (\<lambda>x. f k = f x) xs) = filter (\<lambda>x. f k = f x) xs"
    by (rule buckets_single[where k = "f k"]) (use k in auto)
  then show "filter (\<lambda>x. f k = f x) (buckets f S xs) = filter (\<lambda>x. f k = f x) xs"
    by (simp add: filter_buckets)
qed

lemma sum_occ_below: "(\<Sum>u<v. length (filter (\<lambda>x. f x = u) xs)) = below f xs v"
  by (simp add: below_eq_sum occ_def)

lemma scatter_spec:
  fixes get_key :: "'a \<Rightarrow> 'k::len word" and OFFSET L :: nat
  defines "f \<equiv> digit get_key OFFSET (2 ^ L - 1)"
  assumes len: "length src = n" "length dst = n"
    and c0: "\<And>v. v < 2 ^ L \<Longrightarrow> c0 ! v = below f src v" "2 ^ L \<le> length c0"
  shows "fst (scatter get_key OFFSET (2 ^ L - 1) src dst c0 n) = buckets f (2 ^ L) src"
    and "length (snd (scatter get_key OFFSET (2 ^ L - 1) src dst c0 n)) = length c0"
    and "v < 2 ^ L \<Longrightarrow> snd (scatter get_key OFFSET (2 ^ L - 1) src dst c0 n) ! v
           = below f src (Suc v)"
proof -
  obtain d c where dc: "scatter get_key OFFSET (2 ^ L - 1) src dst c0 n = (d, c)"
    by (cases "scatter get_key OFFSET (2 ^ L - 1) src dst c0 n")
  have inv: "length d = n" "length c = length c0"
    "\<And>v. v < 2 ^ L \<Longrightarrow> c ! v = below f src v + occ f src v"
    "\<And>v p. v < 2 ^ L \<Longrightarrow> p < occ f src v \<Longrightarrow>
        d ! (below f src v + p) = filter (\<lambda>x. f x = v) src ! p"
    using scatter_inv[where get_key = get_key and OFFSET = OFFSET and L = L, folded f_def,
        OF len c0 order_refl] dc len
    by auto
  have fS: "\<And>x. f x < 2 ^ L" unfolding f_def by (rule digit_less)
  have "below f src (2 ^ L) = n" using fS len by (simp add: below_all)
  then have "d = concat (map (\<lambda>v. filter (\<lambda>x. f x = v) src) [0..<2 ^ L])"
    using inv(1) inv(4)
    by (intro concat_segments) (simp_all add: sum_occ_below occ_def)
  then show "fst (scatter get_key OFFSET (2 ^ L - 1) src dst c0 n) = buckets f (2 ^ L) src"
    using dc by (simp add: buckets_def)
  show "length (snd (scatter get_key OFFSET (2 ^ L - 1) src dst c0 n)) = length c0"
    using dc inv(2) by simp
  show "v < 2 ^ L \<Longrightarrow> snd (scatter get_key OFFSET (2 ^ L - 1) src dst c0 n) ! v
           = below f src (Suc v)"
    using dc inv(3) by (simp add: below_Suc)
qed

section \<open>The pass of the out-of-place engines\<close>

lemma occ_eq_length_iff: "occ f xs k = length xs \<longleftrightarrow> (\<forall>x\<in>set xs. f x = k)"
proof
  assume "occ f xs k = length xs"
  then have "filter (\<lambda>x. f x = k) xs = xs"
    unfolding occ_def by (metis length_filter_less less_irrefl_nat filter_True)
  then show "\<forall>x\<in>set xs. f x = k" by (simp add: filter_id_conv)
next
  assume "\<forall>x\<in>set xs. f x = k"
  then show "occ f xs k = length xs" by (simp add: occ_def)
qed

lemma same_bucket_iff:
  "same_bucket c S n \<longleftrightarrow> (\<exists>j. Suc j < S \<and> c ! (j + 1) - c ! j = n)"
  unfolding same_bucket_def list_ex_iff by (auto simp: less_diff_conv)

lemma same_bucket_cdf:
  fixes get_key :: "'a \<Rightarrow> 'k::len word" and OFFSET L :: nat
  defines "f \<equiv> digit get_key OFFSET (2 ^ L - 1)"
  assumes "n \<le> length src"
  shows "same_bucket (cdf get_key OFFSET (2 ^ L - 1) (2 ^ L) src n) (2 ^ L) n
         \<longleftrightarrow> (\<exists>k. Suc k < 2 ^ L \<and> (\<forall>x\<in>set (take n src). f x = k))"
proof -
  let ?c = "cdf get_key OFFSET (2 ^ L - 1) (2 ^ L) src n"
  have c: "\<And>j. j < 2 ^ L \<Longrightarrow> ?c ! j = below f (take n src) j"
    unfolding f_def by (rule cdf_spec(2)[OF refl refl assms(2)])
  have d: "?c ! (j + 1) - ?c ! j = occ f (take n src) j" if "Suc j < 2 ^ L" for j
    using that c[of j] c[of "Suc j"] by (simp add: below_Suc)
  have len: "length (take n src) = n" using assms(2) by simp
  have "same_bucket ?c (2 ^ L) n \<longleftrightarrow> (\<exists>j. Suc j < 2 ^ L \<and> ?c ! (j + 1) - ?c ! j = n)"
    by (rule same_bucket_iff)
  also have "\<dots> \<longleftrightarrow> (\<exists>j. Suc j < 2 ^ L \<and> occ f (take n src) j = n)"
    using d by auto
  also have "\<dots> \<longleftrightarrow> (\<exists>k. Suc k < 2 ^ L \<and> (\<forall>x\<in>set (take n src). f x = k))"
    using occ_eq_length_iff[of f "take n src"] len by simp
  finally show ?thesis .
qed

lemma pass_exchanged:
  fixes get_key :: "'a \<Rightarrow> 'k::len word" and OFFSET L :: nat
  defines "f \<equiv> digit get_key OFFSET (2 ^ L - 1)"
  assumes "n \<le> length src" "Suc k < 2 ^ L" "\<And>x. x \<in> set (take n src) \<Longrightarrow> f x = k"
  shows "pass get_key OFFSET (2 ^ L - 1) (2 ^ L) src dst n
         = (dst, src, cdf get_key OFFSET (2 ^ L - 1) (2 ^ L) src n, True)"
  using same_bucket_cdf[where get_key = get_key and OFFSET = OFFSET and L = L, OF assms(2)] assms(3,4)
  unfolding f_def pass_def Let_def by auto

lemma pass_scattered:
  fixes get_key :: "'a \<Rightarrow> 'k::len word" and OFFSET L :: nat
  defines "f \<equiv> digit get_key OFFSET (2 ^ L - 1)"
  assumes "length src = n" "length dst = n"
    and "\<not> (\<exists>k. Suc k < 2 ^ L \<and> (\<forall>x\<in>set src. f x = k))"
  obtains c where
    "pass get_key OFFSET (2 ^ L - 1) (2 ^ L) src dst n = (src, buckets f (2 ^ L) src, c, False)"
    "length c = 2 * 2 ^ L" "\<And>v. v < 2 ^ L \<Longrightarrow> c ! v = below f src (Suc v)"
proof -
  let ?c0 = "cdf get_key OFFSET (2 ^ L - 1) (2 ^ L) src n"
  have n: "n \<le> length src" using assms(2) by simp
  have c0: "\<And>j. j < 2 ^ L \<Longrightarrow> ?c0 ! j = below f src j" "length ?c0 = 2 * 2 ^ L"
    using cdf_spec[where get_key = get_key and OFFSET = OFFSET and L = L, OF refl refl n] assms(2) by (simp_all add: f_def)
  have le: "2 ^ L \<le> length ?c0" using c0(2) by simp
  note sc = scatter_spec[where get_key = get_key and OFFSET = OFFSET and L = L, folded f_def,
      OF assms(2,3) c0(1) le]
  have nb: "\<not> same_bucket ?c0 (2 ^ L) n"
    using same_bucket_cdf[where get_key = get_key and OFFSET = OFFSET and L = L, OF n]
      assms(2,4) by (simp add: f_def)
  obtain d c where dc: "scatter get_key OFFSET (2 ^ L - 1) src dst ?c0 n = (d, c)"
    by (cases "scatter get_key OFFSET (2 ^ L - 1) src dst ?c0 n")
  show ?thesis
  proof (rule that[of c])
    show "pass get_key OFFSET (2 ^ L - 1) (2 ^ L) src dst n = (src, buckets f (2 ^ L) src, c, False)"
      using nb dc sc(1) by (simp add: pass_def Let_def)
    show "length c = 2 * 2 ^ L" using sc(2) dc c0(2) by simp
    show "\<And>v. v < 2 ^ L \<Longrightarrow> c ! v = below f src (Suc v)" using sc(3) dc by simp
  qed
qed

section \<open>Stable sorting and the fallback sort\<close>

lemma key_less: "get_key x < get_key y \<longleftrightarrow> key_of get_key x < key_of get_key y"
  by (simp add: key_of_def word_less_nat_alt)

lemma key_le: "get_key x \<le> get_key y \<longleftrightarrow> key_of get_key x \<le> key_of get_key y"
  by (simp add: key_of_def word_le_nat_alt)

lemma key_eq: "get_key x = get_key y \<longleftrightarrow> key_of get_key x = key_of get_key y"
  unfolding key_of_def by (rule word_unat_eq_iff)

lemma filter_commute: "filter P (filter Q xs) = filter Q (filter P xs)"
  by (simp add: conj_commute)

lemma sort_key_stable': "filter (\<lambda>x. f k = f x) (sort_key f xs) = filter (\<lambda>x. f k = f x) xs"
proof -
  have "(\<lambda>x. f k = f x) = (\<lambda>x. f x = f k)" by auto
  then show ?thesis by (simp only: sort_key_stable)
qed

lemma sort_key_append_le:
  assumes "\<And>a b. a \<in> set A \<Longrightarrow> b \<in> set B \<Longrightarrow> f a \<le> f b"
  shows "sort_key f (A @ B) = sort_key f A @ sort_key f B"
proof (rule properties_for_sort_key)
  show "mset (sort_key f A @ sort_key f B) = mset (A @ B)" by simp
  show "sorted (map f (sort_key f A @ sort_key f B))"
    using assms by (auto simp: sorted_append)
  fix k
  show "filter (\<lambda>x. f k = f x) (sort_key f A @ sort_key f B)
      = filter (\<lambda>x. f k = f x) (A @ B)"
    by (simp add: sort_key_stable')
qed

lemma sort_key_snoc:
  "sort_key f (xs @ [t])
   = filter (\<lambda>z. f z \<le> f t) (sort_key f xs) @ [t] @ filter (\<lambda>z. f t < f z) (sort_key f xs)"
  (is "_ = ?r")
proof (rule properties_for_sort_key)
  have "mset (filter (\<lambda>z. f z \<le> f t) S) + mset (filter (\<lambda>z. f t < f z) S) = mset S" for S
    by (induction S) auto
  then show "mset ?r = mset (xs @ [t])" by simp
  have "sorted (map f (filter (\<lambda>z. f z \<le> f t) (sort_key f xs)))"
    "sorted (map f (filter (\<lambda>z. f t < f z) (sort_key f xs)))"
    by (simp_all add: sorted_filter)
  then show "sorted (map f ?r)"
    by (auto simp: sorted_append)
  fix k
  let ?K = "filter (\<lambda>x. f k = f x) xs"
  have st: "filter (\<lambda>x. f k = f x) (filter P (sort_key f xs)) = filter P ?K" for P
    by (subst filter_commute) (simp only: sort_key_stable')
  have r: "filter (\<lambda>x. f k = f x) ?r
      = filter (\<lambda>z. f z \<le> f t) ?K @ filter (\<lambda>x. f k = f x) [t] @ filter (\<lambda>z. f t < f z) ?K"
    unfolding filter_append st ..
  show "filter (\<lambda>x. f k = f x) ?r = filter (\<lambda>x. f k = f x) (xs @ [t])"
  proof (cases "f k \<le> f t")
    case True
    have "filter (\<lambda>z. f z \<le> f t) ?K = ?K"
      using True by (auto intro!: filter_cong)
    moreover have "filter (\<lambda>z. f t < f z) ?K = []"
      using True by (auto simp: filter_empty_conv)
    ultimately show ?thesis unfolding r by simp
  next
    case False
    have "filter (\<lambda>z. f z \<le> f t) ?K = []"
      using False by (auto simp: filter_empty_conv)
    moreover have "filter (\<lambda>z. f t < f z) ?K = ?K"
      using False by (auto intro!: filter_cong)
    moreover have "filter (\<lambda>x. f k = f x) [t] = []" using False by auto
    ultimately show ?thesis unfolding r by simp
  qed
qed

lemma insert_down_sorted:
  fixes get_key :: "'a \<Rightarrow> 'k::len word"
  defines "f \<equiv> key_of get_key"
  assumes "j < length d" "sorted (map f (take j d))"
  shows "insert_down get_key t d j
         = filter (\<lambda>z. f z \<le> f t) (take j d) @ [t] @ filter (\<lambda>z. f t < f z) (take j d)
           @ drop (Suc j) d"
  using assms(2,3)
proof (induction j arbitrary: d)
  case 0
  then show ?case by (cases d) (simp_all add: insert_down.simps)
next
  case (Suc j)
  let ?y = "d ! j"
  have tk: "take (Suc j) d = take j d @ [?y]"
    using Suc.prems(1) by (simp add: take_Suc_conv_app_nth)
  have sj: "sorted (map f (take j d))" and le: "\<And>z. z \<in> set (take j d) \<Longrightarrow> f z \<le> f ?y"
    using Suc.prems(2) unfolding tk by (auto simp: sorted_append)
  show ?case
  proof (cases "get_key t < get_key ?y")
    case True
    let ?d = "d[Suc j := ?y]"
    have lt: "f t < f ?y" using True by (simp add: f_def key_less)
    have "insert_down get_key t d (Suc j) = insert_down get_key t ?d j"
      using True by (subst insert_down.simps) simp
    also have "\<dots> = filter (\<lambda>z. f z \<le> f t) (take j ?d) @ [t]
        @ filter (\<lambda>z. f t < f z) (take j ?d) @ drop (Suc j) ?d"
      by (rule Suc.IH) (use Suc.prems sj in simp_all)
    also have "drop (Suc j) ?d = ?y # drop (Suc (Suc j)) d"
      using Suc.prems(1) by (simp add: drop_update_swap flip: Cons_nth_drop_Suc upd_conv_take_nth_drop)
    finally show ?thesis unfolding tk using lt by simp
  next
    case False
    then have ge: "f ?y \<le> f t" by (simp add: f_def key_less)
    have "insert_down get_key t d (Suc j) = d[Suc j := t]"
      using False by (subst insert_down.simps) simp
    also have "\<dots> = take (Suc j) d @ [t] @ drop (Suc (Suc j)) d"
      using Suc.prems(1) by (simp add: upd_conv_take_nth_drop)
    finally have r: "insert_down get_key t d (Suc j) = take (Suc j) d @ [t] @ drop (Suc (Suc j)) d" .
    have "\<forall>z \<in> set (take (Suc j) d). f z \<le> f t"
      unfolding tk using le ge by (auto intro: order_trans)
    then have "filter (\<lambda>z. f z \<le> f t) (take (Suc j) d) = take (Suc j) d"
      "filter (\<lambda>z. f t < f z) (take (Suc j) d) = []"
      by (auto simp: filter_id_conv filter_empty_conv not_less simp del: take_Suc)
    then show ?thesis unfolding r by simp
  qed
qed

lemma insertion_sort_Suc:
  assumes "0 < m"
  shows "insertion_sort get_key src tmp (Suc m) destination
         = (case insertion_sort get_key src tmp m destination of
              (s, t) \<Rightarrow> if destination = 0 then (insert_down get_key (s ! m) s m, t)
                        else (s, insert_down get_key (s ! m) t m))"
proof -
  have "[1..<Suc m] = [1..<m] @ [m]" using assms by simp
  then show ?thesis
    using assms by (simp add: insertion_sort_def Let_def split: prod.splits)
qed

lemma insert_down_snoc:
  fixes get_key :: "'a \<Rightarrow> 'k::len word"
  shows "insert_down get_key t (sort_key (key_of get_key) xs @ r # rest) (length xs)
         = sort_key (key_of get_key) (xs @ [t]) @ rest"
proof -
  let ?f = "key_of get_key"
  let ?d = "sort_key ?f xs @ r # rest"
  have tk: "take (length xs) ?d = sort_key ?f xs" by simp
  have dr: "drop (Suc (length xs)) ?d = rest" by simp
  have s: "sorted (map ?f (take (length xs) ?d))" unfolding tk by simp
  have l: "length xs < length ?d" by simp
  show ?thesis
    unfolding insert_down_sorted[OF l s] tk dr by (simp add: sort_key_snoc)
qed

lemma insertion_sort_spec:
  fixes get_key :: "'a \<Rightarrow> 'k::len word"
  defines "f \<equiv> key_of get_key"
  assumes "n \<le> length src" "n \<le> length tmp"
  shows "insertion_sort get_key src tmp n destination
         = (if destination = 0 then (sort_key f (take n src) @ drop n src, tmp)
            else (src, sort_key f (take n src) @ drop n tmp))"
  using assms(2,3)
proof (induction n)
  case 0
  then show ?case by (simp add: insertion_sort_def)
next
  case (Suc m)
  have sm: "m < length src" and tm: "m < length tmp" using Suc.prems by simp_all
  have tk: "take (Suc m) src = take m src @ [src ! m]"
    using sm by (simp add: take_Suc_conv_app_nth)
  show ?case
  proof (cases "m = 0")
    case True
    have "src \<noteq> []" "tmp \<noteq> []" using sm tm by auto
    then obtain x xs y ys where "src = x # xs" "tmp = y # ys"
      by (metis list.exhaust)
    then show ?thesis using True by (simp add: insertion_sort_def)
  next
    case False
    then have m: "0 < m" by simp
    have IH: "insertion_sort get_key src tmp m destination
         = (if destination = 0 then (sort_key f (take m src) @ drop m src, tmp)
            else (src, sort_key f (take m src) @ drop m tmp))"
      using Suc by simp
    have lm: "length (take m src) = m" using sm by simp
    have ds: "drop m src = src ! m # drop (Suc m) src"
      using sm by (simp add: Cons_nth_drop_Suc)
    have dt: "drop m tmp = tmp ! m # drop (Suc m) tmp"
      using tm by (simp add: Cons_nth_drop_Suc)
    have a: "insert_down get_key t (sort_key f (take m src) @ r # rest) m
        = sort_key f (take m src @ [t]) @ rest" for t r rest
      using insert_down_snoc[where get_key = get_key and xs = "take m src" and t = t and r = r
          and rest = rest]
      unfolding lm f_def .
    obtain s t where st: "insertion_sort get_key src tmp m destination = (s, t)"
      by (cases "insertion_sort get_key src tmp m destination")
    show ?thesis
    proof (cases "destination = 0")
      case True
      then have s: "s = sort_key f (take m src) @ src ! m # drop (Suc m) src" and t: "t = tmp"
        using IH st ds by simp_all
      have nth: "s ! m = src ! m"
        unfolding s using lm by (simp add: nth_append)
      have "insertion_sort get_key src tmp (Suc m) destination
          = (insert_down get_key (src ! m) s m, tmp)"
        unfolding insertion_sort_Suc[OF m] st using True nth t by simp
      also have "insert_down get_key (src ! m) s m
          = sort_key f (take (Suc m) src) @ drop (Suc m) src"
        unfolding s a tk ..
      finally show ?thesis using True by simp
    next
      case False
      then have s: "s = src" and t: "t = sort_key f (take m src) @ tmp ! m # drop (Suc m) tmp"
        using IH st dt by simp_all
      have "insertion_sort get_key src tmp (Suc m) destination
          = (src, insert_down get_key (src ! m) t m)"
        unfolding insertion_sort_Suc[OF m] st using False s by simp
      also have "insert_down get_key (src ! m) t m
          = sort_key f (take (Suc m) src) @ drop (Suc m) tmp"
        unfolding t a tk ..
      finally show ?thesis using False by simp
    qed
  qed
qed

lemma mset_smerge: "mset (smerge f xs ys) = mset xs + mset ys"
  by (induction f xs ys rule: smerge.induct) auto

lemma set_smerge: "set (smerge f xs ys) = set xs \<union> set ys"
  using mset_smerge[of f xs ys] by (metis set_mset_mset set_mset_union)

lemma sorted_smerge:
  "sorted (map f xs) \<Longrightarrow> sorted (map f ys) \<Longrightarrow> sorted (map f (smerge f xs ys))"
  by (induction f xs ys rule: smerge.induct) (auto simp: set_smerge)

lemma filter_smerge:
  "sorted (map f xs) \<Longrightarrow> sorted (map f ys) \<Longrightarrow>
   filter (\<lambda>x. f x = k) (smerge f xs ys) = filter (\<lambda>x. f x = k) xs @ filter (\<lambda>x. f x = k) ys"
proof (induction f xs ys rule: smerge.induct)
  case (3 f x xs y ys)
  show ?case
  proof (cases "f y < f x")
    case True
    have "filter (\<lambda>z. f z = k) (x # xs) = []" if "f y = k"
      using that True "3.prems"(1) by (auto simp: filter_empty_conv)
    then show ?thesis using True 3 by auto
  next
    case False
    then show ?thesis using 3 by auto
  qed
qed simp_all

lemma mset_eq_if_filters:
  assumes "\<And>k. filter (\<lambda>x. f x = k) xs = filter (\<lambda>x. f x = k) ys"
  shows "mset xs = mset ys"
proof (rule multiset_eqI)
  fix x
  have "count (mset xs) x = count (mset (filter (\<lambda>z. f z = f x) xs)) x" by simp
  also have "\<dots> = count (mset (filter (\<lambda>z. f z = f x) ys)) x" by (simp only: assms)
  also have "\<dots> = count (mset ys) x" by simp
  finally show "count (mset xs) x = count (mset ys) x" .
qed

lemma sort_key_eqI:
  assumes "sorted (map f ys)" "\<And>k. filter (\<lambda>x. f x = k) ys = filter (\<lambda>x. f x = k) xs"
  shows "sort_key f xs = ys"
proof (rule properties_for_sort_key)
  show "mset ys = mset xs" by (rule mset_eq_if_filters[OF assms(2)])
  show "sorted (map f ys)" by fact
  fix k
  have "(\<lambda>x. f k = f x) = (\<lambda>x. f x = f k)" by auto
  then show "filter (\<lambda>x. f k = f x) ys = filter (\<lambda>x. f k = f x) xs"
    by (simp only: assms(2))
qed

lemma smerge_sort_key:
  "smerge f (sort_key f A) (sort_key f B) = sort_key f (A @ B)"
  by (rule sym, rule sort_key_eqI) (simp_all add: sorted_smerge filter_smerge sort_key_stable)

lemma window_Cons: "i < length l \<Longrightarrow> 0 < m \<Longrightarrow> window l i m = l ! i # window l (Suc i) (m - 1)"
  unfolding window_def by (cases m) (simp_all add: Cons_nth_drop_Suc[symmetric])

lemma window_snoc: "i + m < length l \<Longrightarrow> window l i (Suc m) = window l i m @ [l ! (i + m)]"
  unfolding window_def by (simp add: take_Suc_conv_app_nth)

lemma copy_rest_fold:
  assumes "i + m \<le> length l" "k + m \<le> length d"
  shows "fold (\<lambda>i (d, k). (d[k := l ! i], k + 1)) [i..<i + m] (d, k)
         = (take k d @ window l i m @ drop (k + m) d, k + m)"
  using assms
proof (induction m)
  case 0
  then show ?case by (simp add: window_def)
next
  case (Suc m)
  have u: "[i..<i + Suc m] = [i..<i + m] @ [i + m]" by simp
  have len: "length (take k d @ window l i m) = k + m"
    using Suc.prems by (simp add: window_def)
  have "((take k d @ window l i m) @ drop (k + m) d)[k + m := l ! (i + m)]
      = (take k d @ window l i m) @ (drop (k + m) d)[0 := l ! (i + m)]"
    unfolding list_update_append len by simp
  then have "(take k d @ window l i m @ drop (k + m) d)[k + m := l ! (i + m)]
      = take k d @ window l i m @ (drop (k + m) d)[0 := l ! (i + m)]"
    by simp
  also have "(drop (k + m) d)[0 := l ! (i + m)] = l ! (i + m) # drop (k + Suc m) d"
    using Suc.prems(2) by (cases "drop (k + m) d") (simp_all add: drop_Suc flip: drop_drop tl_drop)
  finally show ?case
    unfolding u fold_append comp_def using Suc by (simp add: window_snoc)
qed

lemma copy_rest_spec:
  assumes "i \<le> e" "e \<le> length l" "k + (e - i) \<le> length d"
  shows "copy_rest l d i e k = take k d @ window l i (e - i) @ drop (k + (e - i)) d"
  using copy_rest_fold[of i "e - i" l k d] assms by (simp add: copy_rest_def)

lemma take_Suc_update: "k < length d \<Longrightarrow> take (Suc k) (d[k := v]) = take k d @ [v]"
  by (simp add: take_Suc_conv_app_nth)

lemma drop_update_after: "k < m \<Longrightarrow> m = m' \<Longrightarrow> drop m (d[k := v]) = drop m' d"
  by simp

lemma take_Suc_update': "k < length d \<Longrightarrow> take (k + 1) (d[k := v]) = take k d @ [v]"
  by (simp add: take_Suc_conv_app_nth)

lemma merge_loop_spec:
  fixes get_key :: "'a \<Rightarrow> 'k::len word"
  assumes "i < a" "j < b" "a + b \<le> length l" "k + (a - i) + (b - j) \<le> length d"
  shows "\<exists>d' i' j' k'. merge_loop get_key l a b d i j k = Some (d', i', j', k') \<and>
           (if i' = a then copy_rest l d' (a + j') (a + b) k' else copy_rest l d' i' a k')
           = take k d @ smerge (key_of get_key) (window l i (a - i)) (window l (a + j) (b - j))
             @ drop (k + (a - i) + (b - j)) d"
  using assms
proof (induction "(a - i) + (b - j)" arbitrary: d i j k rule: less_induct)
  case less
  let ?f = "key_of get_key"
  let ?x = "l ! i" and ?y = "l ! (a + j)"
  let ?XS = "window l (Suc i) (a - i - 1)" and ?YS = "window l (Suc (a + j)) (b - j - 1)"
  have wa: "window l i (a - i) = ?x # ?XS"
    using less.prems by (intro window_Cons) simp_all
  have wb: "window l (a + j) (b - j) = ?y # ?YS"
    using less.prems by (intro window_Cons) simp_all
  have kd: "k < length d" using less.prems by simp
  show ?case
  proof (cases "get_key ?y < get_key ?x")
    case True
    then have lt: "?f ?y < ?f ?x" by (simp add: key_less)
    let ?d = "d[k := ?y]"
    show ?thesis
    proof (cases "j + 1 = b")
      case jb: True
      have ml: "merge_loop get_key l a b d i j k = Some (?d, i, j + 1, k + 1)"
        using True jb by (subst merge_loop.simps) simp
      have ys: "?YS = []" using jb by (auto simp: window_def)
      have "copy_rest l ?d i a (k + 1)
          = take (k + 1) ?d @ window l i (a - i) @ drop (k + 1 + (a - i)) ?d"
        using less.prems by (intro copy_rest_spec) simp_all
      also have "\<dots> = take k d @ [?y] @ (?x # ?XS) @ drop (k + (a - i) + (b - j)) d"
      proof -
        have "drop (k + 1 + (a - i)) ?d = drop (k + (a - i) + (b - j)) d"
          using jb by (intro drop_update_after) auto
        then show ?thesis unfolding take_Suc_update'[OF kd] wa by simp
      qed
      also have "\<dots> = take k d @ smerge ?f (?x # ?XS) (?y # ?YS) @ drop (k + (a - i) + (b - j)) d"
        using lt ys by simp
      finally show ?thesis
        using ml less.prems(1) unfolding wa wb by simp
    next
      case jb: False
      have ml: "merge_loop get_key l a b d i j k = merge_loop get_key l a b ?d i (j + 1) (k + 1)"
        using True jb by (subst merge_loop.simps) simp
      have j': "j + 1 < b" using jb less.prems(2) by simp
      have "\<exists>d' i' j' k'. merge_loop get_key l a b ?d i (j + 1) (k + 1) = Some (d', i', j', k') \<and>
           (if i' = a then copy_rest l d' (a + j') (a + b) k' else copy_rest l d' i' a k')
           = take (k + 1) ?d @ smerge ?f (window l i (a - i)) (window l (a + (j + 1)) (b - (j + 1)))
             @ drop (k + 1 + (a - i) + (b - (j + 1))) ?d"
        using less.prems j' by (intro less.hyps) simp_all
      moreover have "take (k + 1) ?d @ smerge ?f (window l i (a - i)) (window l (a + (j + 1)) (b - (j + 1)))
             @ drop (k + 1 + (a - i) + (b - (j + 1))) ?d
          = take k d @ smerge ?f (?x # ?XS) (?y # ?YS) @ drop (k + (a - i) + (b - j)) d"
      proof -
        have "drop (k + 1 + (a - i) + (b - (j + 1))) ?d = drop (k + (a - i) + (b - j)) d"
          using j' by (intro drop_update_after) auto
        moreover have "window l (a + (j + 1)) (b - (j + 1)) = ?YS" by simp
        ultimately show ?thesis unfolding take_Suc_update'[OF kd] wa using lt by simp
      qed
      ultimately show ?thesis unfolding ml wa wb by simp
    qed
  next
    case False
    then have ge: "\<not> ?f ?y < ?f ?x" by (simp add: key_less)
    let ?d = "d[k := ?x]"
    show ?thesis
    proof (cases "i + 1 = a")
      case ia: True
      have ml: "merge_loop get_key l a b d i j k = Some (?d, i + 1, j, k + 1)"
        using False ia by (subst merge_loop.simps) simp
      have xs: "?XS = []" using ia by (auto simp: window_def)
      have "copy_rest l ?d (a + j) (a + b) (k + 1)
          = take (k + 1) ?d @ window l (a + j) (a + b - (a + j)) @ drop (k + 1 + (a + b - (a + j))) ?d"
        using less.prems by (intro copy_rest_spec) simp_all
      also have "\<dots> = take k d @ [?x] @ (?y # ?YS) @ drop (k + (a - i) + (b - j)) d"
      proof -
        have "drop (k + 1 + (a + b - (a + j))) ?d = drop (k + (a - i) + (b - j)) d"
          using ia less.prems(2) by (intro drop_update_after) auto
        moreover have "window l (a + j) (a + b - (a + j)) = ?y # ?YS" using wb by simp
        ultimately show ?thesis unfolding take_Suc_update'[OF kd] by simp
      qed
      also have "\<dots> = take k d @ smerge ?f (?x # ?XS) (?y # ?YS) @ drop (k + (a - i) + (b - j)) d"
        using ge xs by simp
      finally show ?thesis
        using ml ia unfolding wa wb by simp
    next
      case ia: False
      have ml: "merge_loop get_key l a b d i j k = merge_loop get_key l a b ?d (i + 1) j (k + 1)"
        using False ia by (subst merge_loop.simps) simp
      have i': "i + 1 < a" using ia less.prems(1) by simp
      have "\<exists>d' i' j' k'. merge_loop get_key l a b ?d (i + 1) j (k + 1) = Some (d', i', j', k') \<and>
           (if i' = a then copy_rest l d' (a + j') (a + b) k' else copy_rest l d' i' a k')
           = take (k + 1) ?d @ smerge ?f (window l (i + 1) (a - (i + 1))) (window l (a + j) (b - j))
             @ drop (k + 1 + (a - (i + 1)) + (b - j)) ?d"
        using less.prems i' by (intro less.hyps) simp_all
      moreover have "take (k + 1) ?d @ smerge ?f (window l (i + 1) (a - (i + 1))) (window l (a + j) (b - j))
             @ drop (k + 1 + (a - (i + 1)) + (b - j)) ?d
          = take k d @ smerge ?f (?x # ?XS) (?y # ?YS) @ drop (k + (a - i) + (b - j)) d"
      proof -
        have "drop (k + 1 + (a - (i + 1)) + (b - j)) ?d = drop (k + (a - i) + (b - j)) d"
          using i' by (intro drop_update_after) auto
        moreover have "window l (i + 1) (a - (i + 1)) = ?XS" by simp
        ultimately show ?thesis unfolding take_Suc_update'[OF kd] wb using ge by simp
      qed
      ultimately show ?thesis unfolding ml wa wb by simp
    qed
  qed
qed

lemma put_window_two:
  assumes "length s1 = a" "length s2 = b" "a + b \<le> length xs"
  shows "put_window (put_window xs 0 s1) a s2 = s1 @ s2 @ drop (a + b) xs"
  using assms by (simp add: put_window_def add.commute)

lemma window_append1: "length xs = a \<Longrightarrow> window (xs @ ys) 0 a = xs"
  by (simp add: window_def)

lemma window_append2: "length xs = a \<Longrightarrow> length ys = b \<Longrightarrow> window (xs @ ys @ zs) a b = ys"
  by (simp add: window_def)

lemma window_split: "a + b = length xs \<Longrightarrow> window xs 0 a @ window xs a b = xs"
  by (simp add: window_def)

lemma fallback_sort_spec:
  fixes get_key :: "'a \<Rightarrow> 'k::len word"
  assumes "length src = n" "n \<le> length tmp"
  shows "\<exists>src' tmp'. fallback_sort get_key src tmp n destination
           = Some (if destination = 0 then Src else Tmp, src', tmp')
         \<and> length src' = n \<and> length tmp' = length tmp
         \<and> (if destination = 0 then src' = sort_key (key_of get_key) src
             else tmp' = sort_key (key_of get_key) src @ drop n tmp)"
  using assms
proof (induction n arbitrary: src tmp destination rule: less_induct)
  case (less n)
  let ?f = "key_of get_key"
  show ?case
  proof (cases "n \<le> 18")
    case True
    have "insertion_sort get_key src tmp n destination
         = (if destination = 0 then (sort_key ?f (take n src) @ drop n src, tmp)
            else (src, sort_key ?f (take n src) @ drop n tmp))"
      using less.prems by (intro insertion_sort_spec) simp_all
    then show ?thesis
      using True less.prems by (subst fallback_sort.simps) simp
  next
    case False
    define a where "a = n div 2"
    define b where "b = n - a"
    define nd :: int where "nd = (if destination = 0 then 1 else 0)"
    have ab: "0 < a" "0 < b" "a < n" "b < n" "a + b = n"
      using False by (auto simp: a_def b_def)
    let ?A = "window src 0 a" and ?B = "window src a b"
    have lens: "length ?A = a" "length ?B = b" "length (window tmp 0 a) = a" "length (window tmp a b) = b"
      using ab less.prems by (auto simp: window_def)
    have AB: "?A @ ?B = src" using ab less.prems by (intro window_split) simp
    obtain s1 t1 where r1: "fallback_sort get_key ?A (window tmp 0 a) a nd
           = Some (if nd = 0 then Src else Tmp, s1, t1)"
      and l1: "length s1 = a" "length t1 = a"
      and o1: "if nd = 0 then s1 = sort_key ?f ?A else t1 = sort_key ?f ?A"
      using less.IH[OF ab(3), of ?A "window tmp 0 a" nd] lens by auto
    obtain s2 t2 where r2: "fallback_sort get_key ?B (window tmp a b) b nd
           = Some (if nd = 0 then Src else Tmp, s2, t2)"
      and l2: "length s2 = b" "length t2 = b"
      and o2: "if nd = 0 then s2 = sort_key ?f ?B else t2 = sort_key ?f ?B"
      using less.IH[OF ab(4), of ?B "window tmp a b" nd] lens by auto
    define src1 where "src1 = put_window (put_window src 0 s1) a s2"
    define tmp1 where "tmp1 = put_window (put_window tmp 0 t1) a t2"
    have src1: "src1 = s1 @ s2"
      unfolding src1_def using put_window_two[OF l1(1) l2(1), of src] ab less.prems by simp
    have tmp1: "tmp1 = t1 @ t2 @ drop n tmp"
      unfolding tmp1_def using put_window_two[OF l1(2) l2(2), of tmp] ab less.prems by simp
    define l where "l = (if destination = 0 then tmp1 else src1)"
    define d where "d = (if destination = 0 then src1 else tmp1)"
    have wl: "window l 0 a = sort_key ?f ?A" "window l a b = sort_key ?f ?B"
      using o1 o2 l1 l2 unfolding l_def src1 tmp1 nd_def
      by (auto simp: window_append1 window_append2[where zs = "[]", simplified] window_append2)
    have ll: "a + b \<le> length l" using l1 l2 ab less.prems by (auto simp: l_def src1 tmp1)
    have ld: "0 + (a - 0) + (b - 0) \<le> length d" using l1 l2 ab less.prems by (auto simp: d_def src1 tmp1)
    obtain d' i' j' k' where ml: "merge_loop get_key l a b d 0 0 0 = Some (d', i', j', k')"
      and fin: "(if i' = a then copy_rest l d' (a + j') (a + b) k' else copy_rest l d' i' a k')
           = take 0 d @ smerge ?f (window l 0 (a - 0)) (window l (a + 0) (b - 0))
             @ drop (0 + (a - 0) + (b - 0)) d"
      using merge_loop_spec[OF ab(1) ab(2) ll ld, of get_key] by blast
    define d2 where "d2 = (if i' = a then copy_rest l d' (a + j') (a + b) k' else copy_rest l d' i' a k')"
    have d2: "d2 = sort_key ?f src @ drop n d"
      using fin wl ab(5) unfolding d2_def by (simp add: smerge_sort_key AB)
    have res: "fallback_sort get_key src tmp n destination
        = Some (if destination = 0 then (Src, d2, tmp1) else (Tmp, src1, d2))"
      using False r1 r2 ml
      unfolding d2_def l_def d_def src1_def tmp1_def nd_def b_def a_def
      by (subst fallback_sort.simps) (simp add: Let_def)
    show ?thesis
      unfolding res d2 using l1 l2 ab(5) less.prems
      by (auto simp: d_def src1 tmp1)
  qed
qed

section \<open>The LSD engine\<close>

lemma result_buf_swapped [simp]: "result_buf (swapped t) = result_buf t"
  by (cases t rule: swapped.cases) (case_tac r; simp)

lemma copy_n_spec:
  assumes "n \<le> length from" "n \<le> length to"
  shows "copy_n from to n = take n from @ drop n to"
  using assms
proof (induction n)
  case 0
  then show ?case by (simp add: copy_n_def)
next
  case (Suc n)
  have "copy_n from to (Suc n) = (copy_n from to n)[n := from ! n]"
    by (simp add: copy_n_def)
  also have "\<dots> = (take n from @ drop n to)[n := from ! n]"
    using Suc by simp
  also have "\<dots> = take n from @ (drop n to)[0 := from ! n]"
    using Suc.prems by (simp add: list_update_append)
  also have "(drop n to)[0 := from ! n] = from ! n # drop (Suc n) to"
    using Suc.prems(2) by (cases "drop n to") (simp_all add: drop_Suc flip: drop_drop tl_drop)
  finally show ?case
    using Suc.prems(1) by (simp add: take_Suc_conv_app_nth)
qed

lemma sort_key_same:
  assumes "\<And>x. x \<in> set xs \<Longrightarrow> f x = k"
  shows "sort_key f xs = xs"
proof (rule sort_key_id_if_sorted)
  have "map f xs = replicate (length xs) k"
    using assms by (simp add: map_replicate_const[symmetric] cong: map_cong)
  then show "sorted (map f xs)" by (simp add: sorted_replicate)
qed

lemma pass_data:
  fixes get_key :: "'a \<Rightarrow> 'k::len word" and OFFSET L :: nat
  assumes "length src = n" "length dst = n"
  shows "\<exists>src1 c ex. pass get_key OFFSET (2 ^ L - 1) (2 ^ L) src dst n
            = (src1, sort_key (digit get_key OFFSET (2 ^ L - 1)) src, c, ex)
          \<and> length src1 = n"
proof -
  let ?f = "digit get_key OFFSET (2 ^ L - 1)"
  show ?thesis
  proof (cases "\<exists>k. Suc k < 2 ^ L \<and> (\<forall>x\<in>set src. ?f x = k)")
    case True
    then obtain k where k: "Suc k < 2 ^ L" "\<And>x. x \<in> set src \<Longrightarrow> ?f x = k" by auto
    have "pass get_key OFFSET (2 ^ L - 1) (2 ^ L) src dst n
         = (dst, src, cdf get_key OFFSET (2 ^ L - 1) (2 ^ L) src n, True)"
      using assms k by (intro pass_exchanged[where k = k]) simp_all
    moreover have "sort_key ?f src = src" by (rule sort_key_same[OF k(2)])
    ultimately show ?thesis using assms by auto
  next
    case False
    obtain c where "pass get_key OFFSET (2 ^ L - 1) (2 ^ L) src dst n
        = (src, buckets ?f (2 ^ L) src, c, False)"
      using pass_scattered[OF assms False] by metis
    moreover have "buckets ?f (2 ^ L) src = sort_key ?f src"
      by (rule buckets_sort_key) (rule digit_less)
    ultimately show ?thesis using assms by auto
  qed
qed

lemma sorted_wrt_refine:
  assumes "sorted_wrt P ys" "\<And>k. sorted_wrt Q (filter (\<lambda>x. h x = k) ys)"
  shows "sorted_wrt (\<lambda>x y. P x y \<and> (h x = h y \<longrightarrow> Q x y)) ys"
  using assms
proof (induction ys)
  case Nil
  then show ?case by simp
next
  case (Cons x ys)
  have "sorted_wrt Q (filter (\<lambda>z. h z = k) ys)" for k
    using Cons.prems(2)[of k] by (cases "h x = k") simp_all
  then have "sorted_wrt (\<lambda>x y. P x y \<and> (h x = h y \<longrightarrow> Q x y)) ys"
    using Cons by simp
  moreover have "Q x y" if "y \<in> set ys" "h x = h y" for y
    using Cons.prems(2)[of "h x"] that by simp
  ultimately show ?case using Cons.prems(1) by auto
qed

lemma le_by_div_mod:
  fixes a b M :: nat
  assumes "a div M \<le> b div M" "a div M = b div M \<Longrightarrow> a mod M \<le> b mod M"
  shows "a \<le> b"
proof (cases "a div M = b div M")
  case True
  have "a div M * M + a mod M = a" "b div M * M + b mod M = b"
    by (rule div_mult_mod_eq)+
  then show ?thesis using assms(2)[OF True] True by (metis add_left_mono)
next
  case False
  then have "a div M < b div M" using assms(1) by simp
  then show ?thesis by (meson div_le_mono leD linorder_le_cases)
qed

lemma lsd_combine:
  fixes g :: "'a \<Rightarrow> nat"
  shows "sort_key (\<lambda>x. g x div M) (sort_key (\<lambda>x. g x mod M) xs) = sort_key g xs"
proof (rule sym, rule sort_key_eqI)
  let ?hi = "\<lambda>x. g x div M" and ?lo = "\<lambda>x. g x mod M"
  let ?ys = "sort_key ?hi (sort_key ?lo xs)"
  have s1: "sorted_wrt (\<lambda>x y. ?hi x \<le> ?hi y) ?ys"
    using sorted_sort_key[of ?hi "sort_key ?lo xs"] by (simp add: sorted_map)
  have s2: "sorted_wrt (\<lambda>x y. ?lo x \<le> ?lo y) (filter (\<lambda>x. ?hi x = k) ?ys)" for k
  proof -
    have "sorted (map ?lo (filter (\<lambda>x. ?hi x = k) (sort_key ?lo xs)))"
      by (rule sorted_filter) simp
    then show ?thesis by (simp add: sort_key_stable sorted_map)
  qed
  have "sorted_wrt (\<lambda>x y. ?hi x \<le> ?hi y \<and> (?hi x = ?hi y \<longrightarrow> ?lo x \<le> ?lo y)) ?ys"
    by (rule sorted_wrt_refine[OF s1 s2])
  then have "sorted_wrt (\<lambda>x y. g x \<le> g y) ?ys"
    by (rule sorted_wrt_mono_rel[rotated]) (auto intro: le_by_div_mod)
  then show "sorted (map g ?ys)" by (simp add: sorted_map)
  fix k
  have e: "(\<lambda>x. g x = k) = (\<lambda>x. ?hi x = k div M \<and> ?lo x = k mod M)"
    by (metis div_mult_mod_eq)
  have "filter (\<lambda>x. g x = k) ?ys
      = filter (\<lambda>x. ?lo x = k mod M) (filter (\<lambda>x. ?hi x = k div M) ?ys)"
    unfolding e by (simp add: conj_commute)
  also have "\<dots> = filter (\<lambda>x. ?lo x = k mod M) (filter (\<lambda>x. ?hi x = k div M) (sort_key ?lo xs))"
    by (simp only: sort_key_stable)
  also have "\<dots> = filter (\<lambda>x. ?hi x = k div M) (filter (\<lambda>x. ?lo x = k mod M) (sort_key ?lo xs))"
    by (rule filter_commute)
  also have "\<dots> = filter (\<lambda>x. ?hi x = k div M) (filter (\<lambda>x. ?lo x = k mod M) xs)"
    by (simp only: sort_key_stable)
  also have "\<dots> = filter (\<lambda>x. g x = k) xs"
    unfolding e filter_filter by (rule filter_cong) auto
  finally show "filter (\<lambda>x. g x = k) ?ys = filter (\<lambda>x. g x = k) xs" .
qed

lemma digit_key_of:
  "digit get_key OFFSET (2 ^ L - 1) = (\<lambda>x. (key_of get_key x div 2 ^ OFFSET) mod 2 ^ L)"
  by (rule ext) (simp only: digit_div_mod key_of_def)

lemma key_of_less: "key_of (get_key :: 'a \<Rightarrow> 'k::len word) x < 2 ^ LENGTH('k)"
  unfolding key_of_def by (rule unsigned_less)

lemma key_top_digit:
  fixes get_key :: "'a \<Rightarrow> 'k::len word"
  assumes "W \<le> LENGTH('k)"
  shows "(key_of get_key x div 2 ^ (LENGTH('k) - W)) mod 2 ^ W
         = key_of get_key x div 2 ^ (LENGTH('k) - W)"
proof -
  have "(2::nat) ^ LENGTH('k) = 2 ^ W * 2 ^ (LENGTH('k) - W)"
    using assms by (simp flip: power_add)
  then have "key_of get_key x div 2 ^ (LENGTH('k) - W) < 2 ^ W"
    using key_of_less[of get_key x] by (simp add: less_mult_imp_div_less)
  then show ?thesis by simp
qed

lemma radix_sort_lsd_impl_spec:
  fixes get_key :: "'a \<Rightarrow> 'k::len word"
  assumes "0 < B" "W \<le> LENGTH('k)" "length src = n" "length dst = n"
  shows "\<exists>r s' d'. radix_sort_lsd_impl get_key W B src dst n = Some (r, s', d')
           \<and> length s' = n \<and> length d' = n
           \<and> result_buf (r, s', d')
               = sort_key (\<lambda>x. key_of get_key x div 2 ^ (LENGTH('k) - W)) src"
  using assms(2-)
proof (induction W arbitrary: src dst rule: less_induct)
  case (less W)
  let ?O = "LENGTH('k) - W"
  let ?g = "\<lambda>x. key_of get_key x div 2 ^ ?O"
  show ?case
  proof (cases "B < W")
    case True
    let ?f = "digit get_key ?O (2 ^ B - 1)"
    obtain src1 c ex where p: "pass get_key ?O (2 ^ B - 1) (2 ^ B) src dst n
        = (src1, sort_key ?f src, c, ex)" and l1: "length src1 = n"
      using pass_data[OF less.prems(2,3), of get_key ?O B] by auto
    have wb: "W - B < W" "W - B \<le> LENGTH('k)" using True assms(1) less.prems(1) by simp_all
    obtain r s' d' where
      rec: "radix_sort_lsd_impl get_key (W - B) B (sort_key ?f src) src1 n = Some (r, s', d')"
      and len: "length s' = n" "length d' = n"
      and res: "result_buf (r, s', d')
           = sort_key (\<lambda>x. key_of get_key x div 2 ^ (LENGTH('k) - (W - B))) (sort_key ?f src)"
      using less.IH[OF wb(1) wb(2), of "sort_key ?f src" src1] less.prems(2) l1 by auto
    have o: "LENGTH('k) - (W - B) = ?O + B" using True less.prems(1) by simp
    have "(\<lambda>x. key_of get_key x div 2 ^ (LENGTH('k) - (W - B))) = (\<lambda>x. ?g x div 2 ^ B)"
      unfolding o by (simp add: power_add div_mult2_eq)
    moreover have "?f = (\<lambda>x. ?g x mod 2 ^ B)" by (rule digit_key_of)
    ultimately have res': "result_buf (r, s', d') = sort_key ?g src"
      using res by (simp only: lsd_combine)
    have "radix_sort_lsd_impl get_key W B src dst n
        = Some (if ex then swapped (swapped (r, s', d')) else swapped (r, s', d'))"
      using True assms(1) p rec
      by (subst radix_sort_lsd_impl.simps) (simp add: Let_def)
    then show ?thesis using len res' by (cases r) auto
  next
    case False
    let ?f = "digit get_key ?O (2 ^ W - 1)"
    obtain src1 c ex where p: "pass get_key ?O (2 ^ W - 1) (2 ^ W) src dst n
        = (src1, sort_key ?f src, c, ex)" and l1: "length src1 = n"
      using pass_data[OF less.prems(2,3), of get_key ?O W] by auto
    have "?f = ?g"
      unfolding digit_key_of using key_top_digit[OF less.prems(1), of get_key] by simp
    moreover have "radix_sort_lsd_impl get_key W B src dst n
        = Some (if ex then swapped (Tmp, src1, sort_key ?f src) else (Tmp, src1, sort_key ?f src))"
      using False assms(1) p
      by (subst radix_sort_lsd_impl.simps) (simp add: Let_def)
    ultimately show ?thesis using l1 less.prems(2) by auto
  qed
qed

lemma radix_sort_lsd_spec:
  fixes get_key :: "'a \<Rightarrow> 'k::len word"
  assumes "0 < B" "length src = n" "length tmp = n"
  shows "\<exists>r s' t'. radix_sort_lsd get_key B src tmp n destination = Some (r, s', t')
           \<and> length s' = n \<and> length t' = n
           \<and> result_buf (r, s', t') = sort_key (key_of get_key) src
           \<and> (destination = 0 \<longrightarrow> r = Src) \<and> (destination = 1 \<longrightarrow> r = Tmp)"
proof -
  obtain r s' d' where
    rec: "radix_sort_lsd_impl get_key LENGTH('k) B src tmp n = Some (r, s', d')"
    and len: "length s' = n" "length d' = n"
    and res: "result_buf (r, s', d') = sort_key (key_of get_key) src"
    using radix_sort_lsd_impl_spec[OF assms(1) order_refl assms(2,3), of get_key] by auto
  have cp: "copy_n d' s' n = d'" "copy_n s' d' n = s'"
    using len by (simp_all add: copy_n_spec)
  show ?thesis
    using rec len res cp by (cases r) (auto simp: radix_sort_lsd_def)
qed

section \<open>The out-of-place MSD engine\<close>

lemma length_window: "b + m \<le> length xs \<Longrightarrow> length (window xs b m) = m"
  by (simp add: window_def)

lemma length_put_window: "b + length ys \<le> length xs \<Longrightarrow> length (put_window xs b ys) = length xs"
  by (simp add: put_window_def)

lemma take_put_window: "b \<le> length xs \<Longrightarrow> take b (put_window xs b ys) = take b xs"
  by (simp add: put_window_def)

lemma drop_put_window:
  "b + length ys \<le> length xs \<Longrightarrow> drop (b + length ys) (put_window xs b ys) = drop (b + length ys) xs"
  by (simp add: put_window_def)

lemma window_put_window:
  "b \<le> length xs \<Longrightarrow> window (put_window xs b ys) b (length ys) = ys"
  by (simp add: put_window_def window_def)

lemma take_drop_length_take: "take m D @ drop (length (take m D)) D = D"
  by (cases "m \<le> length D") simp_all

lemma put_window_id: "put_window xs b (window xs b m) = xs"
proof -
  have "drop (b + length (take m (drop b xs))) xs = drop (length (take m (drop b xs))) (drop b xs)"
    by (simp add: add.commute)
  then show ?thesis
    unfolding put_window_def window_def by (simp only: take_drop_length_take append_take_drop_id)
qed

lemma split_at:
  assumes "b < length xs"
  obtains p x r where "xs = p @ x # r" "length p = b"
proof (rule that)
  show "xs = take b xs @ xs ! b # drop (Suc b) xs" using assms by (rule id_take_nth_drop)
  show "length (take b xs) = b" using assms by simp
qed

lemma split_at2:
  assumes "b + 1 < length xs"
  obtains p x y r where "xs = p @ x # y # r" "length p = b"
proof (rule that)
  have "xs = take b xs @ xs ! b # drop (Suc b) xs"
    using assms by (intro id_take_nth_drop) simp
  also have "drop (Suc b) xs = xs ! Suc b # drop (Suc (Suc b)) xs"
    using assms by (intro Cons_nth_drop_Suc[symmetric]) simp
  finally show "xs = take b xs @ xs ! b # xs ! Suc b # drop (Suc (Suc b)) xs" .
  show "length (take b xs) = b" using assms by simp
qed

lemma put_window_one: "b < length xs \<Longrightarrow> put_window xs b [v] = xs[b := v]"
  by (simp add: put_window_def upd_conv_take_nth_drop)

lemma put_window_pair:
  assumes "b + 1 < length xs"
  shows "put_window xs b [u, v] = xs[b := u, b + 1 := v]"
proof -
  obtain p x y r where xs: "xs = p @ x # y # r" and p: "b = length p"
    using split_at2[OF assms] by metis
  show ?thesis unfolding xs p by (simp add: put_window_def list_update_append)
qed

lemma window_one:
  assumes "b < length xs"
  shows "window xs b 1 = [xs ! b]"
proof -
  obtain p x r where xs: "xs = p @ x # r" and p: "b = length p"
    using split_at[OF assms] by metis
  show ?thesis unfolding xs p by (simp add: window_def)
qed

lemma window_two:
  assumes "b + 1 < length xs"
  shows "window xs b 2 = [xs ! b, xs ! (b + 1)]"
proof -
  obtain p x y r where xs: "xs = p @ x # y # r" and p: "b = length p"
    using split_at2[OF assms] by metis
  show ?thesis unfolding xs p by (simp add: window_def numeral_2_eq_2 nth_append)
qed

lemma sort_key_pair:
  "sort_key f [x, y] = (if f y < f x then [y, x] else [x, y])"
  by auto

lemma put_window_Nil [simp]: "put_window xs b [] = xs"
  by (simp add: put_window_def)

lemma window_0 [simp]: "window xs b 0 = []"
  by (simp add: window_def)

lemma window_drop: "window xs b m @ drop (b + m) xs = drop b xs"
  unfolding window_def by (metis add.commute append_take_drop_id drop_drop)

lemma window_take: "window (take (b + m) xs) b m = window xs b m"
  unfolding window_def by (simp add: drop_take)

lemma bucket_step_spec:
  fixes get_key :: "'a \<Rightarrow> 'k::len word"
  defines "key \<equiv> key_of get_key"
  assumes len: "length src = n" "length dst = n"
    and bm: "b + m \<le> n"
    and same: "\<forall>x\<in>set (window dst b m). \<forall>y\<in>set (window dst b m).
                 key x div 2 ^ off = key y div 2 ^ off"
    and rec_ok: "\<And>s d m. length s = m \<Longrightarrow> length d = m \<Longrightarrow>
        (\<forall>x\<in>set s. \<forall>y\<in>set s. key x div 2 ^ off = key y div 2 ^ off) \<Longrightarrow>
        \<exists>r s' d'. rec s d m = Some (r, s', d') \<and> length s' = m \<and> length d' = m \<and>
           (if destination = 0 then d' else s') = sort_key key s"
  shows "\<exists>src' dst'. bucket_step rec get_key destination b m src dst = Some (src', dst')
          \<and> length src' = n \<and> length dst' = n
          \<and> (if destination = 0 then src' else dst')
              = put_window (if destination = 0 then src else dst) b (sort_key key (window dst b m))
          \<and> drop (b + m) dst' = drop (b + m) dst"
proof -
  consider "m = 0" | "m = 1" | "m = 2" | "2 < m" by linarith
  then show ?thesis
  proof cases
    case 1
    then show ?thesis using len by (simp add: bucket_step_def)
  next
    case 2
    then have b: "b < length dst" "b < length src" using bm len by simp_all
    have "dst[b := dst ! b] = dst" by simp
    then show ?thesis
      using len b unfolding 2 window_one[OF b(1)] bucket_step_def
      by (simp add: put_window_one)
  next
    case 3
    then have b: "b + 1 < length dst" "b + 1 < length src" using bm len by simp_all
    have w: "window dst b 2 = [dst ! b, dst ! (b + 1)]" by (rule window_two[OF b(1)])
    have k: "get_key (dst ! (b + 1)) < get_key (dst ! b) \<longleftrightarrow> key (dst ! (b + 1)) < key (dst ! b)"
      by (simp add: key_def key_less)
    show ?thesis
      using len b unfolding 3 bucket_step_def w sort_key_pair k
      by (simp add: put_window_pair Let_def)
  next
    case 4
    have lw: "length (window dst b m) = m" "length (window src b m) = m"
      using bm len by (simp_all add: length_window)
    obtain r x y where rec: "rec (window dst b m) (window src b m) m = Some (r, x, y)"
      and lxy: "length x = m" "length y = m"
      and srt: "(if destination = 0 then y else x) = sort_key key (window dst b m)"
      using rec_ok[OF lw same] by blast
    have "bucket_step rec get_key destination b m src dst
        = Some (put_window src b y, put_window dst b x)"
      using 4 rec by (simp add: bucket_step_def)
    moreover have "drop (b + m) (put_window dst b x) = drop (b + m) dst"
      using drop_put_window[of b x dst] lxy bm len by simp
    ultimately show ?thesis
      using lxy bm len srt by (auto simp: length_put_window)
  qed
qed

lemma segs_ok_cong:
  assumes "length xs = length ys" "drop b xs = drop b ys"
  shows "segs_ok key off e S j b xs = segs_ok key off e S j b ys"
  using assms
proof (induction key off e S j b xs rule: segs_ok.induct)
  case (1 key off e S j b xs)
  show ?case
  proof (cases "j < S \<and> b \<le> e j")
    case True
    have w: "window xs b (e j - b) = window ys b (e j - b)"
      using "1.prems"(2) by (simp add: window_def)
    have "drop (e j - b) (drop b xs) = drop (e j - b) (drop b ys)"
      using "1.prems"(2) by simp
    then have d: "drop (e j) xs = drop (e j) ys" using True by simp
    have "segs_ok key off e S (j + 1) (e j) xs = segs_ok key off e S (j + 1) (e j) ys"
      using True "1.prems"(1) d by (intro "1.IH") simp_all
    then show ?thesis
      using True w d "1.prems"(1)
      by (subst segs_ok.simps, subst (2) segs_ok.simps) simp
  next
    case False
    then show ?thesis
      using "1.prems"(1) by (subst segs_ok.simps, subst (2) segs_ok.simps) auto
  qed
qed

lemma sorted_rest:
  assumes b: "b \<le> e" "e \<le> length dst" "length out2 = length dst"
    and t: "take e out2 = take e out1"
    and o1: "out1 = put_window out b (sort_key key (window dst b (e - b)))"
    and lo: "length out = length dst"
    and d: "drop e out2 = sort_key key (drop e dst)"
    and cross: "\<forall>x\<in>set (window dst b (e - b)). \<forall>y\<in>set (drop e dst). key x \<le> key y"
  shows "take b out2 = take b out \<and> drop b out2 = sort_key key (drop b dst)"
proof -
  let ?m = "e - b"
  let ?seg = "window dst b ?m"
  have e: "b + ?m = e" using b by simp
  have ls: "length (sort_key key ?seg) = ?m"
    using b by (simp add: length_window)
  have "take b out2 = take b (take e out2)" using b by (simp add: min_def)
  also have "\<dots> = take b out1" unfolding t using b by (simp add: min_def)
  also have "\<dots> = take b out"
    unfolding o1 using b lo by (intro take_put_window) simp
  finally have 1: "take b out2 = take b out" .
  have "window out2 b ?m = window (take (b + ?m) out2) b ?m" by (simp only: window_take)
  also have "\<dots> = window out1 b ?m" unfolding e t by (metis e window_take)
  also have "\<dots> = sort_key key ?seg"
    unfolding o1 using window_put_window[of b out "sort_key key ?seg"] ls b lo by simp
  finally have w: "window out2 b ?m = sort_key key ?seg" .
  have "drop b out2 = window out2 b ?m @ drop (b + ?m) out2" by (simp only: window_drop)
  also have "\<dots> = sort_key key ?seg @ sort_key key (drop e dst)" unfolding w e d ..
  also have "\<dots> = sort_key key (?seg @ drop e dst)"
    using cross by (intro sort_key_append_le[symmetric]) auto
  also have "?seg @ drop e dst = drop b dst" using window_drop[of dst b ?m] e by simp
  finally show ?thesis using 1 by simp
qed


lemma msd_buckets_spec:
  fixes get_key :: "'a \<Rightarrow> 'k::len word"
  defines "key \<equiv> key_of get_key"
  assumes len: "length src = n" "length dst = n"
    and segs: "segs_ok key off (\<lambda>j. c ! j) S j b dst"
    and rec_ok: "\<And>s d m. length s = m \<Longrightarrow> length d = m \<Longrightarrow>
        (\<forall>x\<in>set s. \<forall>y\<in>set s. key x div 2 ^ off = key y div 2 ^ off) \<Longrightarrow>
        \<exists>r s' d'. rec s d m = Some (r, s', d') \<and> length s' = m \<and> length d' = m \<and>
           (if destination = 0 then d' else s') = sort_key key s"
  shows "\<exists>src' dst'. msd_buckets rec get_key destination c S j b src dst = Some (src', dst')
          \<and> length src' = n \<and> length dst' = n
          \<and> take b (if destination = 0 then src' else dst')
              = take b (if destination = 0 then src else dst)
          \<and> drop b (if destination = 0 then src' else dst') = sort_key key (drop b dst)"
  using len segs
proof (induction "S - j" arbitrary: j b src dst)
  case 0
  then have "\<not> j < S" by simp
  then show ?case
    using "0.prems" by (subst msd_buckets.simps) (subst (asm) segs_ok.simps, simp)
next
  case (Suc k)
  then have j: "j < S" by simp
  let ?e = "c ! j"
  let ?seg = "window dst b (?e - b)"
  note Suc.prems(3)[unfolded segs_ok.simps[of key off "\<lambda>j. c ! j" S j b dst] if_P[OF j]]
  then have be: "b \<le> ?e" "?e \<le> length dst"
    and same: "\<forall>x\<in>set ?seg. \<forall>y\<in>set ?seg. key x div 2 ^ off = key y div 2 ^ off"
    and cross: "\<forall>x\<in>set ?seg. \<forall>y\<in>set (drop ?e dst). key x \<le> key y"
    and next_ok: "segs_ok key off (\<lambda>j. c ! j) S (j + 1) ?e dst"
    by blast+
  have bm: "b + (?e - b) \<le> n" using be Suc.prems(2) by simp
  obtain src1 dst1 where
    st: "bucket_step rec get_key destination b (?e - b) src dst = Some (src1, dst1)"
    and l1: "length src1 = n" "length dst1 = n"
    and o1: "(if destination = 0 then src1 else dst1)
              = put_window (if destination = 0 then src else dst) b (sort_key key ?seg)"
    and d1: "drop (b + (?e - b)) dst1 = drop (b + (?e - b)) dst"
    using bucket_step_spec[where get_key = get_key and rec = rec and destination = destination,
        folded key_def, OF Suc.prems(1,2) bm same rec_ok]
    by blast
  have d1': "drop ?e dst1 = drop ?e dst" using d1 be by simp
  have ok1: "segs_ok key off (\<lambda>j. c ! j) S (j + 1) ?e dst1"
    using segs_ok_cong[of dst1 dst ?e key off "\<lambda>j. c ! j" S "j + 1"] l1 Suc.prems(2) d1' next_ok
    by simp
  have k: "k = S - (j + 1)" using Suc.hyps(2) by simp
  obtain src2 dst2 where
    r2: "msd_buckets rec get_key destination c S (j + 1) ?e src1 dst1 = Some (src2, dst2)"
    and l2: "length src2 = n" "length dst2 = n"
    and t2: "take ?e (if destination = 0 then src2 else dst2)
              = take ?e (if destination = 0 then src1 else dst1)"
    and s2: "drop ?e (if destination = 0 then src2 else dst2) = sort_key key (drop ?e dst1)"
    using Suc.hyps(1)[OF k l1 ok1] by blast
  have res: "msd_buckets rec get_key destination c S j b src dst = Some (src2, dst2)"
    using j st r2 by (subst msd_buckets.simps) simp
  have "take b (if destination = 0 then src2 else dst2) = take b (if destination = 0 then src else dst)
      \<and> drop b (if destination = 0 then src2 else dst2) = sort_key key (drop b dst)"
  proof (rule sorted_rest[OF be _ t2 o1 _ _ cross])
    show "length (if destination = 0 then src2 else dst2) = length dst"
      using l2 Suc.prems(2) by simp
    show "length (if destination = 0 then src else dst) = length dst"
      using Suc.prems(1,2) by simp
    show "drop ?e (if destination = 0 then src2 else dst2) = sort_key key (drop ?e dst)"
      using s2 d1' by simp
  qed
  then show ?case using res l2 by blast
qed

lemma buckets_Suc: "buckets f (Suc j) xs = buckets f j xs @ filter (\<lambda>x. f x = j) xs"
  by (simp add: buckets_def)

lemma length_buckets: "length (buckets f j xs) = below f xs j"
proof (induction j)
  case 0
  then show ?case by (simp add: buckets_def)
next
  case (Suc j)
  then show ?case by (simp add: buckets_Suc below_Suc occ_def)
qed

lemma buckets_split:
  assumes "j < S"
  shows "buckets f S xs = buckets f j xs @ filter (\<lambda>x. f x = j) xs
           @ concat (map (\<lambda>v. filter (\<lambda>x. f x = v) xs) [Suc j..<S])"
proof -
  have "[0..<S] = [0..<j] @ [j..<S]"
    using upt_add_eq_append[of 0 j "S - j"] assms by simp
  moreover have "[j..<S] = j # [Suc j..<S]"
    using assms by (simp add: upt_conv_Cons)
  ultimately show ?thesis by (simp add: buckets_def)
qed

lemma window_middle: "length A = a \<Longrightarrow> length B = m \<Longrightarrow> window (A @ B @ C) a m = B"
  by (simp add: window_def)

lemma drop_middle: "length A = a \<Longrightarrow> length B = m \<Longrightarrow> drop (a + m) (A @ B @ C) = C"
  by (simp add: add.commute)

lemma segs_ok_buckets:
  fixes f key :: "'a \<Rightarrow> nat"
  assumes fS: "\<And>x. f x < S"
    and same: "\<And>x y. x \<in> set xs \<Longrightarrow> y \<in> set xs \<Longrightarrow> f x = f y \<Longrightarrow>
                 key x div 2 ^ off = key y div 2 ^ off"
    and ord: "\<And>x y. x \<in> set xs \<Longrightarrow> y \<in> set xs \<Longrightarrow> f x < f y \<Longrightarrow> key x \<le> key y"
    and e: "\<And>j. j < S \<Longrightarrow> e j = below f xs (Suc j)"
    and j: "j \<le> S"
  shows "segs_ok key off e S j (below f xs j) (buckets f S xs)"
  using j
proof (induction "S - j" arbitrary: j)
  case 0
  then have "j = S" by simp
  moreover have "below f xs S = length xs" using fS by (simp add: below_all)
  ultimately show ?case
    by (subst segs_ok.simps) (simp add: length_buckets)
next
  case (Suc k)
  then have j: "j < S" by simp
  let ?A = "buckets f j xs" and ?B = "filter (\<lambda>x. f x = j) xs"
  let ?C = "concat (map (\<lambda>v. filter (\<lambda>x. f x = v) xs) [Suc j..<S])"
  have sp: "buckets f S xs = ?A @ ?B @ ?C" by (rule buckets_split[OF j])
  have lA: "length ?A = below f xs j" by (rule length_buckets)
  have lB: "length ?B = e j - below f xs j" using e[OF j] by (simp add: below_Suc occ_def)
  have ej: "e j = below f xs j + (e j - below f xs j)" using e[OF j] by (simp add: below_Suc)
  have w: "window (buckets f S xs) (below f xs j) (e j - below f xs j) = ?B"
    unfolding sp by (rule window_middle[OF lA lB])
  have d: "drop (e j) (buckets f S xs) = ?C"
    unfolding sp by (subst ej) (rule drop_middle[OF lA lB])
  have 1: "below f xs j \<le> e j" using e[OF j] by (simp add: below_Suc)
  have 2: "e j \<le> length (buckets f S xs)"
    using e[OF j] below_mono[of "Suc j" S f xs] j by (simp add: length_buckets)
  have 3: "\<forall>x\<in>set ?B. \<forall>y\<in>set ?B. key x div 2 ^ off = key y div 2 ^ off"
  proof (intro ballI)
    fix x y assume "x \<in> set ?B" "y \<in> set ?B"
    then have "x \<in> set xs" "y \<in> set xs" "f x = f y" by simp_all
    then show "key x div 2 ^ off = key y div 2 ^ off" by (rule same)
  qed
  have 4: "\<forall>x\<in>set ?B. \<forall>y\<in>set ?C. key x \<le> key y"
  proof (intro ballI)
    fix x y assume "x \<in> set ?B" "y \<in> set ?C"
    then have "x \<in> set xs" "y \<in> set xs" "f x < f y" by auto
    then show "key x \<le> key y" by (rule ord)
  qed
  have 5: "segs_ok key off e S (j + 1) (e j) (buckets f S xs)"
    using Suc.hyps(1)[of "j + 1"] Suc.hyps(2) j e[OF j] by simp
  show ?case
    unfolding segs_ok.simps[of key off e S j "below f xs j" "buckets f S xs"] if_P[OF j] w d
    using 1 2 3 4 5 by blast
qed

lemma segs_ok_single:
  fixes f key :: "'a \<Rightarrow> nat"
  assumes k: "Suc k < S"
    and same: "\<forall>x\<in>set xs. \<forall>y\<in>set xs. key x div 2 ^ off = key y div 2 ^ off"
    and e: "\<And>j. j < S \<Longrightarrow> e j = (if j \<le> k then 0 else length xs)"
    and j: "j \<le> S"
  shows "segs_ok key off e S j (if j \<le> Suc k then 0 else length xs) xs"
  using j
proof (induction "S - j" arbitrary: j)
  case 0
  then have "j = S" by simp
  then show ?case using k by (subst segs_ok.simps) simp
next
  case (Suc m)
  then have j: "j < S" by simp
  let ?b = "if j \<le> Suc k then 0 else length xs"
  have 5: "segs_ok key off e S (j + 1) (e j) xs"
    using Suc.hyps(1)[of "j + 1"] Suc.hyps(2) j e[OF j] by (auto simp: not_less_eq_eq)
  consider "j \<le> k" | "j = Suc k" | "Suc k < j" by linarith
  then have "?b \<le> e j \<and> e j \<le> length xs \<and>
     (\<forall>x\<in>set (window xs ?b (e j - ?b)). \<forall>y\<in>set (window xs ?b (e j - ?b)).
         key x div 2 ^ off = key y div 2 ^ off) \<and>
     (\<forall>x\<in>set (window xs ?b (e j - ?b)). \<forall>y\<in>set (drop (e j) xs). key x \<le> key y)"
  proof cases
    case 1
    then show ?thesis using e[OF j] by simp
  next
    case 2
    then have ej: "e j = length xs" and b0: "?b = 0" using e[OF j] by simp_all
    have w: "window xs 0 (length xs - 0) = xs" "drop (length xs) xs = []"
      by (simp_all add: window_def)
    have "\<forall>x\<in>set xs. \<forall>y\<in>set ([]::'a list). key x \<le> key y" by simp
    then show ?thesis unfolding ej b0 w using same by blast
  next
    case 3
    then show ?thesis using e[OF j] by simp
  qed
  then show ?case
    unfolding segs_ok.simps[of key off e S j ?b xs] if_P[OF j]
    using 5 by blast
qed

lemma eq_by_div_mod:
  fixes a b M :: nat
  assumes "a div M = b div M" "a mod M = b mod M"
  shows "a = b"
  using assms by (metis div_mult_mod_eq)

lemma hi_eq:
  fixes key :: "'a \<Rightarrow> nat"
  assumes "key x div 2 ^ (off + L) = key y div 2 ^ (off + L)"
    and "(key x div 2 ^ off) mod 2 ^ L = (key y div 2 ^ off) mod 2 ^ L"
  shows "key x div 2 ^ off = key y div 2 ^ off"
proof (rule eq_by_div_mod[where M = "2 ^ L"])
  show "key x div 2 ^ off div 2 ^ L = key y div 2 ^ off div 2 ^ L"
    using assms(1) by (simp add: power_add div_mult2_eq)
  show "key x div 2 ^ off mod 2 ^ L = key y div 2 ^ off mod 2 ^ L" by (rule assms(2))
qed

lemma key_le_by_digit:
  fixes key :: "'a \<Rightarrow> nat"
  assumes "key x div 2 ^ (off + L) = key y div 2 ^ (off + L)"
    and "(key x div 2 ^ off) mod 2 ^ L < (key y div 2 ^ off) mod 2 ^ L"
  shows "key x \<le> key y"
proof (rule ccontr)
  assume "\<not> key x \<le> key y"
  then have "key y div 2 ^ off \<le> key x div 2 ^ off" by (simp add: div_le_mono)
  moreover have "key x div 2 ^ off \<le> key y div 2 ^ off"
  proof (rule le_by_div_mod[where M = "2 ^ L"])
    show "key x div 2 ^ off div 2 ^ L \<le> key y div 2 ^ off div 2 ^ L"
      using assms(1) by (simp add: power_add div_mult2_eq)
    show "key x div 2 ^ off mod 2 ^ L \<le> key y div 2 ^ off mod 2 ^ L"
      using assms(2) by simp
  qed
  ultimately have "key x div 2 ^ off = key y div 2 ^ off" by simp
  then show False using assms(2) by simp
qed

lemma sort_key_coarser:
  fixes key :: "'a \<Rightarrow> nat"
  assumes "\<And>x. f x = g (key x)"
  shows "sort_key key (sort_key f xs) = sort_key key xs"
proof (rule sort_key_eqI)
  show "sorted (map key (sort_key key xs))" by simp
  fix k
  have e: "(\<lambda>x. key x = k) = (\<lambda>x. f x = g k \<and> key x = k)"
    using assms by auto
  have "filter (\<lambda>x. key x = k) (sort_key f xs)
      = filter (\<lambda>x. key x = k) (filter (\<lambda>x. f x = g k) (sort_key f xs))"
    by (subst e) (simp add: conj_commute)
  also have "\<dots> = filter (\<lambda>x. key x = k) (filter (\<lambda>x. f x = g k) xs)"
    by (simp only: sort_key_stable)
  also have "\<dots> = filter (\<lambda>x. key x = k) xs"
    by (subst (2) e) (simp add: conj_commute)
  finally show "filter (\<lambda>x. key x = k) (sort_key key xs) = filter (\<lambda>x. key x = k) (sort_key f xs)"
    by (simp add: sort_key_stable)
qed

lemma sort_key_low_bits:
  fixes key :: "'a \<Rightarrow> nat"
  assumes "\<forall>x\<in>set xs. \<forall>y\<in>set xs. key x div M = key y div M"
  shows "sort_key (\<lambda>x. key x mod M) xs = sort_key key xs"
proof -
  let ?f = "\<lambda>x. key x mod M"
  let ?ys = "sort_key ?f xs"
  have "sorted_wrt (\<lambda>x y. ?f x \<le> ?f y) ?ys"
    using sorted_sort_key[of ?f xs] by (simp only: sorted_map)
  then have "sorted_wrt (\<lambda>x y. key x \<le> key y) ?ys"
  proof (rule sorted_wrt_mono_rel[rotated])
    fix x y assume xy: "x \<in> set ?ys" "y \<in> set ?ys" and le: "?f x \<le> ?f y"
    from xy have "x \<in> set xs" "y \<in> set xs" by simp_all
    then have d: "key x div M = key y div M" using assms by blast
    show "key x \<le> key y"
    proof (rule le_by_div_mod[where M = M])
      show "key x div M \<le> key y div M" unfolding d ..
      show "key x mod M \<le> key y mod M" by (rule le)
    qed
  qed
  then have "sorted (map key ?ys)" unfolding sorted_map .
  then have "sort_key key ?ys = ?ys" by (rule sort_key_id_if_sorted)
  moreover have "sort_key key ?ys = sort_key key xs"
    by (rule sort_key_coarser[where g = "\<lambda>k. k mod M"]) simp
  ultimately show ?thesis by simp
qed

lemma below_single:
  assumes "\<And>x. x \<in> set xs \<Longrightarrow> f x = k"
  shows "below f xs j = (if j \<le> k then 0 else length xs)"
proof (cases "j \<le> k")
  case True
  then have "filter (\<lambda>x. f x < j) xs = []" using assms by (auto simp: filter_empty_conv)
  then show ?thesis using True by (simp add: below_def)
next
  case False
  then have "filter (\<lambda>x. f x < j) xs = xs" using assms by (auto simp: filter_id_conv)
  then show ?thesis using False by (simp add: below_def)
qed

lemma pass_segs:
  fixes get_key :: "'a \<Rightarrow> 'k::len word" and off L :: nat
  defines "key \<equiv> key_of get_key"
  defines "f \<equiv> digit get_key off (2 ^ L - 1)"
  assumes len: "length src = n" "length dst = n"
    and shared: "\<forall>x\<in>set src. \<forall>y\<in>set src. key x div 2 ^ (off + L) = key y div 2 ^ (off + L)"
  shows "\<exists>src1 c ex. pass get_key off (2 ^ L - 1) (2 ^ L) src dst n = (src1, sort_key f src, c, ex)
           \<and> length src1 = n
           \<and> segs_ok key off (\<lambda>j. c ! j) (2 ^ L) 0 0 (sort_key f src)"
proof -
  have f: "f = (\<lambda>x. (key x div 2 ^ off) mod 2 ^ L)"
    unfolding f_def key_def by (rule digit_key_of)
  have fS: "\<And>x. f x < 2 ^ L" unfolding f_def by (rule digit_less)
  show ?thesis
  proof (cases "\<exists>k. Suc k < 2 ^ L \<and> (\<forall>x\<in>set src. f x = k)")
    case True
    then obtain k where k: "Suc k < 2 ^ L" "\<And>x. x \<in> set src \<Longrightarrow> f x = k" by auto
    let ?c = "cdf get_key off (2 ^ L - 1) (2 ^ L) src n"
    have p: "pass get_key off (2 ^ L - 1) (2 ^ L) src dst n = (dst, src, ?c, True)"
      using len k unfolding f_def by (intro pass_exchanged[where k = k]) simp_all
    have s: "sort_key f src = src" by (rule sort_key_same[OF k(2)])
    have c: "?c ! j = (if j \<le> k then 0 else length src)" if "j < 2 ^ L" for j
      using cdf_spec(2)[where get_key = get_key and OFFSET = off and L = L and src = src and n = n,
          OF refl refl _ that] len below_single[of src f k j, OF k(2)]
      by (simp add: f_def)
    have same: "\<forall>x\<in>set src. \<forall>y\<in>set src. key x div 2 ^ off = key y div 2 ^ off"
    proof (intro ballI)
      fix x y assume xy: "x \<in> set src" "y \<in> set src"
      then have ff: "f x = f y" using k(2) by simp
      have sh: "key x div 2 ^ (off + L) = key y div 2 ^ (off + L)" using shared xy by blast
      show "key x div 2 ^ off = key y div 2 ^ off"
        by (rule hi_eq[where key = key and x = x and y = y and off = off and L = L, OF sh]) (use ff in \<open>simp add: f\<close>)
    qed
    have "segs_ok key off (\<lambda>j. ?c ! j) (2 ^ L) 0 (if 0 \<le> Suc k then 0 else length src) src"
      by (rule segs_ok_single[OF k(1) same c]) simp_all
    then show ?thesis using p s len by auto
  next
    case False
    obtain c where p: "pass get_key off (2 ^ L - 1) (2 ^ L) src dst n
        = (src, buckets f (2 ^ L) src, c, False)"
      and c: "\<And>v. v < 2 ^ L \<Longrightarrow> c ! v = below f src (Suc v)"
      using pass_scattered[OF len False[unfolded f_def], folded f_def] by metis
    have b: "buckets f (2 ^ L) src = sort_key f src"
      by (rule buckets_sort_key) (rule fS)
    have "segs_ok key off (\<lambda>j. c ! j) (2 ^ L) 0 (below f src 0) (buckets f (2 ^ L) src)"
    proof (rule segs_ok_buckets[OF fS _ _ c])
      fix x y assume xy: "x \<in> set src" "y \<in> set src"
      have sh: "key x div 2 ^ (off + L) = key y div 2 ^ (off + L)" using shared xy by blast
      show "key x div 2 ^ off = key y div 2 ^ off" if "f x = f y"
        by (rule hi_eq[where key = key and x = x and y = y and off = off and L = L, OF sh]) (use that in \<open>simp add: f\<close>)
      show "key x \<le> key y" if "f x < f y"
        by (rule key_le_by_digit[where key = key and x = x and y = y and off = off and L = L, OF sh]) (use that in \<open>simp add: f\<close>)
    qed simp_all
    then show ?thesis using p b len by auto
  qed
qed

lemma xor_one_int: "(0::int) XOR 1 = 1" "(1::int) XOR 1 = 0"
  by simp_all

lemma radix_sort_msd_impl_spec:
  fixes get_key :: "'a \<Rightarrow> 'k::len word"
  assumes B: "0 < B"
    and len: "length src = n" "length dst = n"
    and dest: "destination = 0 \<or> destination = 1"
    and shared: "\<forall>x\<in>set src. \<forall>y\<in>set src.
                   key_of get_key x div 2 ^ W = key_of get_key y div 2 ^ W"
  shows "\<exists>s' d'. radix_sort_msd_impl get_key W B THRESHOLD src dst n destination
            = Some (if destination = 0 then Src else Tmp, s', d')
          \<and> length s' = n \<and> length d' = n
          \<and> (if destination = 0 then s' else d') = sort_key (key_of get_key) src"
  using len dest shared
proof (induction W arbitrary: src dst n destination rule: less_induct)
  case (less W)
  let ?key = "key_of get_key"
  define L where "L = (if B < W then B else W)"
  define off where "off = W - L"
  let ?f = "digit get_key off (2 ^ L - 1)"
  have unf: "radix_sort_msd_impl get_key W B THRESHOLD src dst n destination =
      (if n < THRESHOLD then fallback_sort get_key src dst n destination
       else
        (case pass get_key off (2 ^ L - 1) (2 ^ L) src dst n of
           (src1, dst1, c, exchanged) \<Rightarrow>
             let destination1 = (if exchanged then destination XOR 1 else destination);
                 out = (if destination1 = 0 then Src else Tmp)
             in
             do {
               (src2, dst2) \<leftarrow>
                 (if 0 < off then
                    msd_buckets
                      (\<lambda>s d m. radix_sort_msd_impl get_key off B THRESHOLD s d m
                                 (destination1 XOR 1))
                      get_key destination1 c (2 ^ L) 0 0 src1 dst1
                  else Some (src1, dst1));
               let src3 = (if off = 0 \<and> destination1 = 0 then copy_n dst2 src2 n else src2) in
               Some (if exchanged then swapped (out, src3, dst2) else (out, src3, dst2))
             }))"
    unfolding off_def L_def using B
    by (subst radix_sort_msd_impl.simps) (simp only: Let_def if_not_P[of "B = 0"] neq0_conv)
  show ?case
  proof (cases "n < THRESHOLD")
    case True
    obtain s' t' where "fallback_sort get_key src dst n destination
           = Some (if destination = 0 then Src else Tmp, s', t')"
      "length s' = n" "length t' = length dst"
      "if destination = 0 then s' = sort_key ?key src else t' = sort_key ?key src @ drop n dst"
      using fallback_sort_spec[of src n dst get_key destination] less.prems(1,2) by auto
    then show ?thesis
      unfolding unf using True less.prems(2) by (cases "destination = 0") simp_all
  next
    case False
    have W: "off + L = W" by (simp add: off_def L_def)
    have f: "?f = (\<lambda>x. (?key x div 2 ^ off) mod 2 ^ L)" by (rule digit_key_of)
    have sh: "\<forall>x\<in>set src. \<forall>y\<in>set src. ?key x div 2 ^ (off + L) = ?key y div 2 ^ (off + L)"
      unfolding W by (rule less.prems(4))
    obtain src1 c ex where
      p: "pass get_key off (2 ^ L - 1) (2 ^ L) src dst n = (src1, sort_key ?f src, c, ex)"
      and l1: "length src1 = n"
      and segs: "segs_ok ?key off (\<lambda>j. c ! j) (2 ^ L) 0 0 (sort_key ?f src)"
      using pass_segs[OF less.prems(1,2) sh] by blast
    define dst1 where "dst1 = sort_key ?f src"
    have ld1: "length dst1 = n" using less.prems(1) by (simp add: dst1_def)
    define d1 where "d1 = (if ex then destination XOR 1 else destination)"
    have d1: "d1 = 0 \<or> d1 = 1" using less.prems(3) by (auto simp: d1_def)
    define rec where "rec = (\<lambda>s d m. radix_sort_msd_impl get_key off B THRESHOLD s d m (d1 XOR 1))"
    define T where "T = (if 0 < off then msd_buckets rec get_key d1 c (2 ^ L) 0 0 src1 dst1
              else Some (src1, dst1))"
    have srt: "sort_key ?key dst1 = sort_key ?key src"
      unfolding f dst1_def
      by (rule sort_key_coarser[where g = "\<lambda>k. (k div 2 ^ off) mod 2 ^ L"]) simp
    have tail: "\<exists>src2 dst2. T = Some (src2, dst2) \<and> length src2 = n \<and> length dst2 = n
        \<and> (if d1 = 0 then (if off = 0 then copy_n dst2 src2 n else src2) else dst2)
            = sort_key ?key src"
    proof (cases "0 < off")
      case True
      then have lt: "off < W" using B by (auto simp: off_def L_def split: if_splits)
      have rec_ok: "\<exists>r s' d'. rec s d m = Some (r, s', d') \<and> length s' = m \<and> length d' = m \<and>
           (if d1 = 0 then d' else s') = sort_key ?key s"
        if "length s = m" "length d = m"
          "\<forall>x\<in>set s. \<forall>y\<in>set s. ?key x div 2 ^ off = ?key y div 2 ^ off" for s d m
      proof (cases "d1 = 0")
        case True
        then have x: "d1 XOR 1 = 1" by simp
        show ?thesis
          using less.IH[OF lt that(1,2) _ that(3), of 1] True unfolding rec_def x by auto
      next
        case False
        then have x: "d1 XOR 1 = 0" using d1 by auto
        show ?thesis
          using less.IH[OF lt that(1,2) _ that(3), of 0] False unfolding rec_def x by auto
      qed
      obtain src2 dst2 where
        r: "msd_buckets rec get_key d1 c (2 ^ L) 0 0 src1 dst1 = Some (src2, dst2)"
        and l2: "length src2 = n" "length dst2 = n"
        and o2: "drop 0 (if d1 = 0 then src2 else dst2) = sort_key ?key (drop 0 dst1)"
        using msd_buckets_spec[where get_key = get_key and rec = rec and destination = d1
            and src = src1 and dst = dst1 and n = n and c = c and S = "2 ^ L" and j = 0 and b = 0
            and off = off, OF l1 ld1 segs[folded dst1_def] rec_ok]
        by blast
      have "(if d1 = 0 then src2 else dst2) = sort_key ?key src"
        using o2 srt by simp
      then show ?thesis using True r l2 unfolding T_def by auto
    next
      case False
      then have off0: "off = 0" by simp
      then have LW: "L = W" using W by simp
      have "sort_key (\<lambda>x. ?key x mod 2 ^ W) src = sort_key ?key src"
        by (rule sort_key_low_bits) (use less.prems(4) in blast)
      moreover have "?f = (\<lambda>x. ?key x mod 2 ^ W)"
        unfolding f unfolding off0 LW by simp
      ultimately have s: "dst1 = sort_key ?key src"
        unfolding dst1_def by simp
      have "copy_n dst1 src1 n = dst1" using l1 ld1 by (simp add: copy_n_spec)
      then show ?thesis using off0 l1 ld1 s unfolding T_def by auto
    qed
    then obtain src2 dst2 where T: "T = Some (src2, dst2)"
      and l2: "length src2 = n" "length dst2 = n"
      and o2: "(if d1 = 0 then (if off = 0 then copy_n dst2 src2 n else src2) else dst2)
            = sort_key ?key src"
      by blast
    define src3 where "src3 = (if off = 0 \<and> d1 = 0 then copy_n dst2 src2 n else src2)"
    define out where "out = (if d1 = 0 then Src else Tmp)"
    have "radix_sort_msd_impl get_key W B THRESHOLD src dst n destination
        = T \<bind> (\<lambda>(src2, dst2).
            Some (if ex then swapped (if d1 = 0 then Src else Tmp,
                                      if off = 0 \<and> d1 = 0 then copy_n dst2 src2 n else src2, dst2)
                  else (if d1 = 0 then Src else Tmp,
                        if off = 0 \<and> d1 = 0 then copy_n dst2 src2 n else src2, dst2)))"
      unfolding unf T_def rec_def d1_def dst1_def
      by (simp only: False if_False p prod.case Let_def)
    then have res: "radix_sort_msd_impl get_key W B THRESHOLD src dst n destination
        = Some (if ex then swapped (out, src3, dst2) else (out, src3, dst2))"
      unfolding T out_def src3_def by simp
    have l3: "length src3 = n"
      using l2 by (simp add: src3_def copy_n_spec)
    have o3: "(if d1 = 0 then src3 else dst2) = sort_key ?key src"
      using o2 by (auto simp: src3_def split: if_splits)
    show ?thesis
    proof (cases ex)
      case True
      then have "d1 = destination XOR 1" by (simp add: d1_def)
      then show ?thesis
        unfolding res using True less.prems(3) l2 l3 o3 by (auto simp: out_def)
    next
      case False
      then have "d1 = destination" by (simp add: d1_def)
      then show ?thesis
        unfolding res using False less.prems(3) l2 l3 o3 by (auto simp: out_def)
    qed
  qed
qed

section \<open>radix\_sort\_stable sorts stably\<close>

lemma shared_top:
  fixes get_key :: "'a \<Rightarrow> 'k::len word"
  shows "\<forall>x\<in>set src. \<forall>y\<in>set src.
           key_of get_key x div 2 ^ LENGTH('k) = key_of get_key y div 2 ^ LENGTH('k)"
  using key_of_less[of get_key] by simp

lemma radix_sort_msd_spec:
  fixes get_key :: "'a \<Rightarrow> 'k::len word"
  assumes "0 < B" "length src = n" "length tmp = n"
  shows "\<exists>s' t'. radix_sort_msd get_key B THRESHOLD src tmp n destination
            = Some (if destination = 1 then Tmp else Src, s', t')
          \<and> length s' = n \<and> length t' = n
          \<and> (if destination = 1 then t' else s') = sort_key (key_of get_key) src"
proof -
  let ?d = "if destination \<noteq> 1 then 0 else destination"
  have d: "?d = 0 \<or> ?d = 1" by simp
  show ?thesis
    using radix_sort_msd_impl_spec[where get_key = get_key and THRESHOLD = THRESHOLD,
        OF assms d shared_top[where get_key = get_key]] assms
    unfolding radix_sort_msd_def by (cases "destination = 1") auto
qed

lemma radix_sort_stable_spec:
  fixes get_key :: "'a \<Rightarrow> 'k::len word"
  assumes "length src = n" "length tmp = n"
  shows "\<exists>r s' t'. radix_sort_stable get_key sizeof_T src tmp n destination mode = Some (r, s', t')
          \<and> length s' = n \<and> length t' = n
          \<and> result_buf (r, s', t') = sort_key (key_of get_key) src
          \<and> (destination = 0 \<longrightarrow> r = Src) \<and> (destination = 1 \<longrightarrow> r = Tmp)"
proof -
  have msd: "\<exists>r s' t'. radix_sort_msd get_key B THRESHOLD src tmp n destination = Some (r, s', t')
          \<and> length s' = n \<and> length t' = n
          \<and> result_buf (r, s', t') = sort_key (key_of get_key) src
          \<and> (destination = 0 \<longrightarrow> r = Src) \<and> (destination = 1 \<longrightarrow> r = Tmp)"
    if "0 < B" for B THRESHOLD
    using radix_sort_msd_spec[OF that assms, where get_key = get_key and THRESHOLD = THRESHOLD
        and destination = destination]
    by (cases "destination = 1") auto
  have lsd: "\<exists>r s' t'. radix_sort_lsd get_key 8 src tmp n destination = Some (r, s', t')
          \<and> length s' = n \<and> length t' = n
          \<and> result_buf (r, s', t') = sort_key (key_of get_key) src
          \<and> (destination = 0 \<longrightarrow> r = Src) \<and> (destination = 1 \<longrightarrow> r = Tmp)"
    by (rule radix_sort_lsd_spec[OF _ assms]) simp
  show ?thesis
    unfolding radix_sort_stable_def Let_def
    using msd[of 8 128] msd[of 11 256] lsd by (simp split: if_splits)
qed

lemma sorted_keys:
  fixes get_key :: "'a \<Rightarrow> 'k::len word"
  shows "sorted (map get_key xs) \<longleftrightarrow> sorted (map (key_of get_key) xs)"
  by (simp only: sorted_map key_le)

lemma filter_keys:
  fixes get_key :: "'a \<Rightarrow> 'k::len word"
  shows "filter (\<lambda>x. get_key x = k) xs = filter (\<lambda>x. key_of get_key x = unat k) xs"
  by (rule filter_cong) (simp_all add: key_of_def word_unat_eq_iff)

lemma sort_key_words:
  fixes get_key :: "'a \<Rightarrow> 'k::len word"
  shows "sort_key (key_of get_key) xs = sort_key get_key xs"
proof (rule sym, rule properties_for_sort_key)
  show "mset (sort_key (key_of get_key) xs) = mset xs" by simp
  show "sorted (map get_key (sort_key (key_of get_key) xs))"
    unfolding sorted_keys by simp
  fix k
  have "(\<lambda>x. get_key k = get_key x) = (\<lambda>x. key_of get_key x = key_of get_key k)"
    by (auto simp: key_of_def word_unat_eq_iff)
  then show "filter (\<lambda>x. get_key k = get_key x) (sort_key (key_of get_key) xs)
      = filter (\<lambda>x. get_key k = get_key x) xs"
    by (simp only: sort_key_stable)
qed

lemma dispatch_eq:
  fixes get_key :: "'a \<Rightarrow> 'k::len word"
  shows "radix_sort_stable get_key sizeof_T src tmp n destination mode =
         (if msd_selected mode n LENGTH('k) sizeof_T
          then (if wide_radix n then radix_sort_msd get_key 11 256 src tmp n destination
                else radix_sort_msd get_key 8 128 src tmp n destination)
          else radix_sort_lsd get_key 8 src tmp n destination)"
  unfolding radix_sort_stable_def msd_selected_def wide_radix_def CHAR_BIT_def Let_def
  by auto

section \<open>The in-place MSD engine\<close>

lemma bucket_ends_fold:
  assumes "length c = 2 * S" "m < S"
  shows "length (fold (\<lambda>j c. c[S + j := c ! (j + 1)]) [0..<m] c) = 2 * S \<and>
         (\<forall>i<S. fold (\<lambda>j c. c[S + j := c ! (j + 1)]) [0..<m] c ! i = c ! i) \<and>
         (\<forall>j<m. fold (\<lambda>j c. c[S + j := c ! (j + 1)]) [0..<m] c ! (S + j) = c ! (j + 1))"
  using assms(2)
proof (induction m)
  case 0
  then show ?case using assms(1) by simp
next
  case (Suc m)
  let ?c = "fold (\<lambda>j c. c[S + j := c ! (j + 1)]) [0..<m] c"
  from Suc have IH: "length ?c = 2 * S" "\<And>i. i < S \<Longrightarrow> ?c ! i = c ! i"
    "\<And>j. j < m \<Longrightarrow> ?c ! (S + j) = c ! (j + 1)"
    by auto
  have step: "fold (\<lambda>j c. c[S + j := c ! (j + 1)]) [0..<Suc m] c = ?c[S + m := ?c ! (m + 1)]"
    by simp
  show ?case
    unfolding step using IH Suc.prems
    by (auto simp: nth_list_update less_Suc_eq)
qed

lemma bucket_ends_spec:
  assumes "length c = 2 * S" "0 < S"
  shows "length (bucket_ends S n c) = 2 * S"
    and "\<And>i. i < S \<Longrightarrow> bucket_ends S n c ! i = c ! i"
    and "\<And>j. Suc j < S \<Longrightarrow> bucket_ends S n c ! (S + j) = c ! (j + 1)"
    and "bucket_ends S n c ! (S + (S - 1)) = n"
proof -
  have m: "S - 1 < S" using assms(2) by simp
  note f = bucket_ends_fold[OF assms(1) m]
  show "length (bucket_ends S n c) = 2 * S" using f by (simp add: bucket_ends_def)
  show "\<And>i. i < S \<Longrightarrow> bucket_ends S n c ! i = c ! i"
    using f by (simp add: bucket_ends_def nth_list_update)
  show "\<And>j. Suc j < S \<Longrightarrow> bucket_ends S n c ! (S + j) = c ! (j + 1)"
    using f by (simp add: bucket_ends_def nth_list_update)
  show "bucket_ends S n c ! (S + (S - 1)) = n"
    using f assms(2) by (simp add: bucket_ends_def)
qed

lemma bucket_ends_cdf:
  fixes get_key :: "'a \<Rightarrow> 'k::len word" and OFFSET L :: nat
  defines "f \<equiv> digit get_key OFFSET (2 ^ L - 1)"
  defines "c \<equiv> \<lambda>src n. bucket_ends (2 ^ L) n (cdf get_key OFFSET (2 ^ L - 1) (2 ^ L) src n)"
  assumes "length src = n"
  shows "length (c src n) = 2 * 2 ^ L"
    and "\<And>v. v < 2 ^ L \<Longrightarrow> c src n ! v = below f src v"
    and "\<And>v. v < 2 ^ L \<Longrightarrow> c src n ! (2 ^ L + v) = below f src (Suc v)"
proof -
  let ?c0 = "cdf get_key OFFSET (2 ^ L - 1) (2 ^ L) src n"
  have n: "n \<le> length src" using assms(3) by simp
  have c0: "length ?c0 = 2 * 2 ^ L" "\<And>j. j < 2 ^ L \<Longrightarrow> ?c0 ! j = below f src j"
    using cdf_spec[where get_key = get_key and OFFSET = OFFSET and L = L, OF refl refl n] assms(3)
    by (simp_all add: f_def)
  have S: "(0::nat) < 2 ^ L" by simp
  note be = bucket_ends_spec[OF c0(1) S, where n = n]
  show "length (c src n) = 2 * 2 ^ L" unfolding c_def by (rule be(1))
  show "c src n ! v = below f src v" if "v < 2 ^ L" for v
    unfolding c_def using be(2)[OF that] c0(2)[OF that] by simp
  show "c src n ! (2 ^ L + v) = below f src (Suc v)" if v: "v < 2 ^ L" for v
  proof (cases "Suc v < 2 ^ L")
    case True
    then show ?thesis unfolding c_def using be(3)[OF True] c0(2)[OF True] by simp
  next
    case False
    then have e: "v = 2 ^ L - 1" using v by simp
    have "\<And>x. f x < 2 ^ L" unfolding f_def by (rule digit_less)
    then have "below f src (2 ^ L) = n" using assms(3) by (simp add: below_all)
    moreover have "Suc v = 2 ^ L" using e by simp
    ultimately show ?thesis unfolding c_def using be(4) e by simp
  qed
qed

lemma occ_mset: "mset xs = mset ys \<Longrightarrow> occ f xs v = occ f ys v"
proof -
  assume a: "mset xs = mset ys"
  have "occ f xs v = size (filter_mset (\<lambda>x. f x = v) (mset xs))"
    by (simp add: occ_def flip: mset_filter)
  also have "\<dots> = size (filter_mset (\<lambda>x. f x = v) (mset ys))" by (simp only: a)
  also have "\<dots> = occ f ys v" by (simp add: occ_def flip: mset_filter)
  finally show ?thesis .
qed

lemma occ_card: "occ f xs v = card {i. i < length xs \<and> f (xs ! i) = v}"
  unfolding occ_def by (rule length_filter_conv_card)

lemma perm_inv_length: "perm_inv f S src0 src c \<Longrightarrow> length src = length src0"
  unfolding perm_inv_def by (metis size_mset)

lemma perm_room:
  assumes inv: "perm_inv f S src0 src c"
    and h: "h < S" and k: "k < length src" and fk: "f (src ! k) = h"
    and out: "k < below f src0 h \<or> c ! h \<le> k"
  shows "c ! h < c ! (S + h)"
proof -
  let ?lo = "below f src0 h"
  from inv h have e: "c ! (S + h) = below f src0 (Suc h)" and lo: "?lo \<le> c ! h"
    and hi: "c ! h \<le> c ! (S + h)"
    and dig: "\<And>i. ?lo \<le> i \<Longrightarrow> i < c ! h \<Longrightarrow> f (src ! i) = h"
    and ms: "mset src = mset src0"
    unfolding perm_inv_def by blast+
  have len: "length src = length src0" by (rule perm_inv_length[OF inv])
  let ?A = "{?lo..<c ! h} \<union> {k}"
  let ?D = "{i. i < length src \<and> f (src ! i) = h}"
  have "c ! (S + h) \<le> length src"
    unfolding e len by (rule below_le_length)
  then have sub: "?A \<subseteq> ?D" using dig hi k fk by auto
  have "card ?A = (c ! h - ?lo) + 1" using out by auto
  moreover have "card ?A \<le> card ?D" by (rule card_mono[OF _ sub]) simp
  moreover have "card ?D = occ f src0 h"
    using occ_card[of f src h] occ_mset[OF ms, of f h] by simp
  ultimately have "c ! h - ?lo + 1 \<le> occ f src0 h" by simp
  then show ?thesis unfolding e below_Suc using lo by simp
qed

lemma region_disjoint:
  assumes "v \<noteq> w" "below f xs v \<le> i" "i < below f xs (Suc v)"
    "below f xs w \<le> i'" "i' < below f xs (Suc w)"
  shows "i \<noteq> i'"
proof (cases "v < w")
  case True
  then have "below f xs (Suc v) \<le> below f xs w" by (intro below_mono) simp
  then show ?thesis using assms by simp
next
  case False
  then have "w < v" using assms(1) by simp
  then have "below f xs (Suc w) \<le> below f xs v" by (intro below_mono) simp
  then show ?thesis using assms by simp
qed

lemma perm_inv_swap:
  assumes inv: "perm_inv f S src0 src c"
    and j: "j < S" and h: "h < S" and hj: "h \<noteq> j"
    and kj: "c ! j < c ! (S + j)" and fk: "f (src ! (c ! j)) = h"
  shows "c ! h < c ! (S + h)"
    and "perm_inv f S src0 (src[c ! h := src ! (c ! j), c ! j := src ! (c ! h)]) (incr c h)"
    and "slack S (incr c h) < slack S c"
proof -
  let ?k = "c ! j" and ?p = "c ! h"
  let ?b = "below f src0"
  from inv have lc: "length c = 2 * S" and ms: "mset src = mset src0"
    and all: "\<And>v. v < S \<Longrightarrow> c ! (S + v) = ?b (Suc v) \<and> ?b v \<le> c ! v \<and> c ! v \<le> c ! (S + v) \<and>
        (\<forall>i. ?b v \<le> i \<and> i < c ! v \<longrightarrow> f (src ! i) = v)"
    unfolding perm_inv_def by blast+
  have len: "length src = length src0" by (rule perm_inv_length[OF inv])
  have ej: "c ! (S + j) = ?b (Suc j)" and loj: "?b j \<le> ?k" using all[OF j] by blast+
  have eh: "c ! (S + h) = ?b (Suc h)" and loh: "?b h \<le> ?p" and hih: "?p \<le> c ! (S + h)"
    using all[OF h] by blast+
  have kn: "?k < length src"
    using kj below_le_length[of f src0 "Suc j"] unfolding ej len by simp
  have out: "?k < ?b h \<or> ?p \<le> ?k"
  proof (cases "h < j")
    case True
    then have "?b (Suc h) \<le> ?b j" by (intro below_mono) simp
    then show ?thesis using hih loj unfolding eh by simp
  next
    case False
    then have "j < h" using hj by simp
    then have "?b (Suc j) \<le> ?b h" by (intro below_mono) simp
    then show ?thesis using kj unfolding ej by simp
  qed
  show room: "?p < c ! (S + h)" by (rule perm_room[OF inv h kn fk out])
  have pn: "?p < length src"
    using room below_le_length[of f src0 "Suc h"] unfolding eh len by simp
  have pk: "?p \<noteq> ?k"
    using region_disjoint[OF hj loh room[unfolded eh] loj kj[unfolded ej]] .
  let ?src = "src[?p := src ! ?k, ?k := src ! ?p]"
  have nth: "?src ! i = (if i = ?k then src ! ?p else if i = ?p then src ! ?k else src ! i)" for i
    using pn kn by (simp add: nth_list_update)
  have hl: "h < length c" using h lc by simp
  have cS: "incr c h ! (S + v) = c ! (S + v)" for v
    using h hl by (simp add: nth_incr)
  have cv: "incr c h ! v = (if v = h then ?p + 1 else c ! v)" for v
    using hl by (simp add: nth_incr)
  show "perm_inv f S src0 ?src (incr c h)"
    unfolding perm_inv_def
  proof (intro conjI allI impI)
    show "length (incr c h) = 2 * S" using lc by simp
    show "mset ?src = mset src0"
      using mset_swap[OF kn pn] ms by simp
  next
    fix v assume v: "v < S"
    show "incr c h ! (S + v) = ?b (Suc v)" unfolding cS using all[OF v] by blast
    show "?b v \<le> incr c h ! v" unfolding cv using all[OF v] by auto
    show "incr c h ! v \<le> incr c h ! (S + v)"
      unfolding cS unfolding cv using all[OF v] room by auto
  next
    fix v i assume v: "v < S" and i: "?b v \<le> i \<and> i < incr c h ! v"
    have ev: "c ! (S + v) = ?b (Suc v)" and hiv: "c ! v \<le> c ! (S + v)"
      and dig: "\<And>i. ?b v \<le> i \<Longrightarrow> i < c ! v \<Longrightarrow> f (src ! i) = v"
      using all[OF v] by blast+
    show "f (?src ! i) = v"
    proof (cases "v = h")
      case True
      show ?thesis
      proof (cases "i = ?p")
        case ip: True
        then show ?thesis unfolding nth using pk fk True by simp
      next
        case ip: False
        then have lt: "i < ?p" using i True unfolding cv by simp
        then have "i \<noteq> ?k" using out i True by auto
        then show ?thesis unfolding nth using ip dig[of i] i lt True by simp
      qed
    next
      case False
      then have lt: "i < c ! v" using i unfolding cv by simp
      then have iv: "i < ?b (Suc v)" using hiv unfolding ev by simp
      have "i \<noteq> ?p"
        using region_disjoint[OF False _ iv loh room[unfolded eh]] i by blast
      moreover have "i \<noteq> ?k"
      proof (cases "v = j")
        case True
        then show ?thesis using lt by simp
      next
        case False
        show ?thesis
          using region_disjoint[OF False _ iv loj kj[unfolded ej]] i by blast
      qed
      ultimately show ?thesis unfolding nth using dig[of i] i lt by simp
    qed
  qed
  have t: "incr c h ! (S + v) - incr c h ! v = c ! (S + v) - (if v = h then ?p + 1 else c ! v)"
    for v
    by (simp only: cS cv[of v])
  show "slack S (incr c h) < slack S c"
    unfolding slack_def
  proof (rule sum_strict_mono_ex1)
    show "finite {..<S}" by simp
    show "\<forall>v\<in>{..<S}. incr c h ! (S + v) - incr c h ! v \<le> c ! (S + v) - c ! v"
      unfolding t by auto
    show "\<exists>v\<in>{..<S}. incr c h ! (S + v) - incr c h ! v < c ! (S + v) - c ! v"
      unfolding t using h room by (intro bexI[of _ h]) auto
  qed
qed

lemma chase_spec:
  fixes get_key :: "'a \<Rightarrow> 'k::len word" and OFFSET L :: nat
  defines "f \<equiv> digit get_key OFFSET (2 ^ L - 1)"
  assumes inv: "perm_inv f (2 ^ L) src0 src c"
    and j: "j < 2 ^ L" and kj: "c ! j < c ! (2 ^ L + j)"
  shows "\<exists>src' c'. chase get_key OFFSET (2 ^ L - 1) j (c ! j) (f (src ! (c ! j))) src c
            = Some (src', c')
          \<and> perm_inv f (2 ^ L) src0 src' c' \<and> f (src' ! (c ! j)) = j \<and> c' ! j = c ! j
          \<and> (\<forall>v<2 ^ L. c ! v \<le> c' ! v)"
  using inv kj
proof (induction "slack (2 ^ L) c" arbitrary: src c rule: less_induct)
  case less
  let ?S = "(2::nat) ^ L"
  let ?k = "c ! j"
  let ?h = "f (src ! ?k)"
  show ?case
  proof (cases "?h = j")
    case True
    have "chase get_key OFFSET (2 ^ L - 1) j ?k ?h src c = Some (src, c)"
      using True by (subst chase.simps) simp
    then show ?thesis using less.prems(1) True by auto
  next
    case False
    have h: "?h < ?S" unfolding f_def by (rule digit_less)
    note sw = perm_inv_swap[OF less.prems(1) j h False less.prems(2) refl]
    let ?p = "c ! ?h"
    let ?src2 = "src[?p := src ! ?k, ?k := src ! ?p]"
    let ?c1 = "incr c ?h"
    have lc: "length c = 2 * ?S" and all: "\<And>v. v < ?S \<Longrightarrow> c ! (?S + v) = below f src0 (Suc v)"
      using less.prems(1) unfolding perm_inv_def by blast+
    have len: "length src = length src0" by (rule perm_inv_length[OF less.prems(1)])
    have kn: "?k < length src"
      using less.prems(2) below_le_length[of f src0 "Suc j"] all[OF j] len by simp
    have hl: "?h < length c" using h lc by simp
    have c1j: "?c1 ! j = ?k" using hl False by (simp add: nth_incr)
    have c1e: "?c1 ! (?S + j) = c ! (?S + j)" using hl h by (simp add: nth_incr)
    have c1v: "c ! v \<le> ?c1 ! v" for v using hl by (simp add: nth_incr)
    have s2k: "?src2 ! ?k = src ! ?p" using kn by simp
    have unf: "chase get_key OFFSET (2 ^ L - 1) j ?k ?h src c
        = chase get_key OFFSET (2 ^ L - 1) j (?c1 ! j) (f (?src2 ! (?c1 ! j))) ?src2 ?c1"
      unfolding c1j s2k using False
      by (subst chase.simps) (simp add: Let_def f_def)
    have kj1: "?c1 ! j < ?c1 ! (?S + j)" unfolding c1j c1e by (rule less.prems(2))
    obtain src' c' where
      r: "chase get_key OFFSET (2 ^ L - 1) j (?c1 ! j) (f (?src2 ! (?c1 ! j))) ?src2 ?c1
            = Some (src', c')"
      and i': "perm_inv f ?S src0 src' c'" and f': "f (src' ! (?c1 ! j)) = j"
      and c': "c' ! j = ?c1 ! j" and m': "\<forall>v<?S. ?c1 ! v \<le> c' ! v"
      using less.hyps[OF sw(3) sw(2) kj1] by blast
    have "\<forall>v<?S. c ! v \<le> c' ! v" using m' c1v by (meson order_trans)
    then show ?thesis
      unfolding unf r using i' f' c' c1j by auto
  qed
qed

lemma perm_inv_advance:
  assumes inv: "perm_inv f S src0 src c"
    and j: "j < S" and kj: "c ! j < c ! (S + j)" and fk: "f (src ! (c ! j)) = j"
  shows "perm_inv f S src0 src (incr c j)"
proof -
  from inv have lc: "length c = 2 * S" and ms: "mset src = mset src0"
    and all: "\<And>v. v < S \<Longrightarrow> c ! (S + v) = below f src0 (Suc v) \<and> below f src0 v \<le> c ! v \<and>
        c ! v \<le> c ! (S + v) \<and> (\<forall>i. below f src0 v \<le> i \<and> i < c ! v \<longrightarrow> f (src ! i) = v)"
    unfolding perm_inv_def by blast+
  have jl: "j < length c" using j lc by simp
  have cS: "incr c j ! (S + v) = c ! (S + v)" for v using j jl by (simp add: nth_incr)
  have cv: "incr c j ! v = (if v = j then c ! j + 1 else c ! v)" for v
    using jl by (simp add: nth_incr)
  show ?thesis
    unfolding perm_inv_def
  proof (intro conjI allI impI)
    show "length (incr c j) = 2 * S" using lc by simp
    show "mset src = mset src0" by (rule ms)
  next
    fix v assume v: "v < S"
    show "incr c j ! (S + v) = below f src0 (Suc v)" unfolding cS using all[OF v] by blast
    show "below f src0 v \<le> incr c j ! v" unfolding cv using all[OF v] by auto
    show "incr c j ! v \<le> incr c j ! (S + v)" unfolding cS unfolding cv using all[OF v] kj by auto
  next
    fix v i assume v: "v < S" and i: "below f src0 v \<le> i \<and> i < incr c j ! v"
    have dig: "\<And>i. below f src0 v \<le> i \<Longrightarrow> i < c ! v \<Longrightarrow> f (src ! i) = v"
      using all[OF v] by blast
    show "f (src ! i) = v"
    proof (cases "v = j \<and> i = c ! j")
      case True
      then show ?thesis using fk by simp
    next
      case False
      then have "i < c ! v" using i unfolding cv by (auto split: if_splits)
      then show ?thesis using dig i by blast
    qed
  qed
qed

lemma perm_inv_end: "perm_inv f S src0 src c \<Longrightarrow> v < S \<Longrightarrow> c ! (S + v) = below f src0 (Suc v)"
  unfolding perm_inv_def by blast

lemma perm_inv_le: "perm_inv f S src0 src c \<Longrightarrow> v < S \<Longrightarrow> c ! v \<le> c ! (S + v)"
  unfolding perm_inv_def by blast

lemma fill_bucket_spec:
  fixes get_key :: "'a \<Rightarrow> 'k::len word" and OFFSET L :: nat
  defines "f \<equiv> digit get_key OFFSET (2 ^ L - 1)"
  assumes inv: "perm_inv f (2 ^ L) src0 src c" and j: "j < 2 ^ L"
  shows "\<exists>src' c'. fill_bucket get_key OFFSET (2 ^ L - 1) (2 ^ L) j src c = Some (src', c')
          \<and> perm_inv f (2 ^ L) src0 src' c' \<and> c' ! j = c' ! (2 ^ L + j)
          \<and> (\<forall>v<2 ^ L. c ! v \<le> c' ! v)"
  using inv
proof (induction "c ! (2 ^ L + j) - c ! j" arbitrary: src c rule: less_induct)
  case less
  let ?S = "(2::nat) ^ L"
  show ?case
  proof (cases "c ! j = c ! (?S + j)")
    case True
    have "fill_bucket get_key OFFSET (2 ^ L - 1) (2 ^ L) j src c = Some (src, c)"
      using True by (subst fill_bucket.simps) simp
    then show ?thesis using less.prems True by auto
  next
    case False
    then have kj: "c ! j < c ! (?S + j)" using perm_inv_le[OF less.prems j] by simp
    obtain src1 c1 where
      ch: "chase get_key OFFSET (2 ^ L - 1) j (c ! j) (f (src ! (c ! j))) src c = Some (src1, c1)"
      and i1: "perm_inv f ?S src0 src1 c1" and f1: "f (src1 ! (c ! j)) = j"
      and c1j: "c1 ! j = c ! j" and m1: "\<forall>v<?S. c ! v \<le> c1 ! v"
      using chase_spec[OF less.prems[unfolded f_def] j kj, folded f_def] by blast
    have e: "c1 ! (?S + j) = c ! (?S + j)"
      using perm_inv_end[OF i1 j] perm_inv_end[OF less.prems j] by simp
    have kj1: "c1 ! j < c1 ! (?S + j)" unfolding c1j e by (rule kj)
    have i2: "perm_inv f ?S src0 src1 (incr c1 j)"
      by (rule perm_inv_advance[OF i1 j kj1]) (simp add: c1j f1)
    have lc1: "length c1 = 2 * ?S" using i1 unfolding perm_inv_def by blast
    then have jl: "j < length c1" using j by simp
    have c2j: "incr c1 j ! j = c ! j + 1" using jl c1j by (simp add: nth_incr)
    have c2e: "incr c1 j ! (?S + j) = c ! (?S + j)" using jl j e by (simp add: nth_incr)
    have c2v: "c1 ! v \<le> incr c1 j ! v" for v using jl by (simp add: nth_incr)
    have dec: "incr c1 j ! (?S + j) - incr c1 j ! j < c ! (?S + j) - c ! j"
      unfolding c2j c2e using kj by simp
    obtain src' c' where
      r: "fill_bucket get_key OFFSET (2 ^ L - 1) (2 ^ L) j src1 (incr c1 j) = Some (src', c')"
      and i': "perm_inv f ?S src0 src' c'" and d': "c' ! j = c' ! (?S + j)"
      and m': "\<forall>v<?S. incr c1 j ! v \<le> c' ! v"
      using less.hyps[OF dec i2] by blast
    have unf: "fill_bucket get_key OFFSET (2 ^ L - 1) (2 ^ L) j src c
        = fill_bucket get_key OFFSET (2 ^ L - 1) (2 ^ L) j src1 (incr c1 j)"
      using False ch[unfolded f_def] by (subst fill_bucket.simps) simp
    have "\<forall>v<?S. c ! v \<le> c' ! v"
      using m1 m' c2v by (meson order_trans)
    then show ?thesis unfolding unf r using i' d' by auto
  qed
qed

lemma permute_spec:
  fixes get_key :: "'a \<Rightarrow> 'k::len word" and OFFSET L :: nat
  defines "f \<equiv> digit get_key OFFSET (2 ^ L - 1)"
  assumes inv: "perm_inv f (2 ^ L) src0 src c" and j: "j \<le> 2 ^ L"
    and full: "\<forall>v<j. c ! v = c ! (2 ^ L + v)"
  shows "\<exists>src' c'. permute get_key OFFSET (2 ^ L - 1) (2 ^ L) j src c = Some (src', c')
          \<and> perm_inv f (2 ^ L) src0 src' c' \<and> (\<forall>v<2 ^ L. c' ! v = c' ! (2 ^ L + v))"
  using inv j full
proof (induction "2 ^ L - j" arbitrary: j src c)
  case 0
  then have "j = 2 ^ L" by simp
  then show ?case
    using "0.prems" by (subst permute.simps) simp
next
  case (Suc m)
  let ?S = "(2::nat) ^ L"
  from Suc have j: "j < ?S" by simp
  obtain src1 c1 where
    fb: "fill_bucket get_key OFFSET (2 ^ L - 1) (2 ^ L) j src c = Some (src1, c1)"
    and i1: "perm_inv f ?S src0 src1 c1" and d1: "c1 ! j = c1 ! (?S + j)"
    and m1: "\<forall>v<?S. c ! v \<le> c1 ! v"
    using fill_bucket_spec[OF Suc.prems(1)[unfolded f_def] j, folded f_def] by blast
  have full1: "\<forall>v<j + 1. c1 ! v = c1 ! (?S + v)"
  proof (intro allI impI)
    fix v assume v: "v < j + 1"
    show "c1 ! v = c1 ! (?S + v)"
    proof (cases "v = j")
      case True
      then show ?thesis using d1 by simp
    next
      case False
      then have vj: "v < j" using v by simp
      then have vS: "v < ?S" using j by simp
      have "c ! v = c ! (?S + v)" using Suc.prems(3) vj by blast
      moreover have "c ! (?S + v) = c1 ! (?S + v)"
        using perm_inv_end[OF Suc.prems(1) vS] perm_inv_end[OF i1 vS] by simp
      moreover have "c ! v \<le> c1 ! v" using m1 vS by blast
      moreover have "c1 ! v \<le> c1 ! (?S + v)" by (rule perm_inv_le[OF i1 vS])
      ultimately show ?thesis by simp
    qed
  qed
  have m: "m = ?S - (j + 1)" using Suc.hyps(2) by simp
  have j1: "j + 1 \<le> ?S" using j by simp
  obtain src' c' where
    r: "permute get_key OFFSET (2 ^ L - 1) (2 ^ L) (j + 1) src1 c1 = Some (src', c')"
    and i': "perm_inv f ?S src0 src' c'" and d': "\<forall>v<?S. c' ! v = c' ! (?S + v)"
    using Suc.hyps(1)[OF m i1 j1 full1] by blast
  have "permute get_key OFFSET (2 ^ L - 1) (2 ^ L) j src c = Some (src', c')"
    using j fb r by (subst permute.simps) simp
  then show ?case using i' d' by blast
qed

lemma same_bucket_lower:
  assumes "\<And>i. i < S \<Longrightarrow> c' ! i = c ! i"
  shows "same_bucket c' S n = same_bucket c S n"
proof -
  have "c' ! (j + 1) - c' ! j = c ! (j + 1) - c ! j" if "Suc j < S" for j
    using assms[of j] assms[of "j + 1"] that by simp
  then show ?thesis unfolding same_bucket_iff by auto
qed

lemma region_exists:
  assumes "i < below f xs S"
  shows "\<exists>w<S. below f xs w \<le> i \<and> i < below f xs (Suc w)"
  using assms
proof (induction S)
  case 0
  then show ?case by simp
next
  case (Suc S)
  show ?case
  proof (cases "i < below f xs S")
    case True
    then show ?thesis using Suc.IH less_Suc_eq by blast
  next
    case False
    then show ?thesis using Suc.prems by (intro exI[of _ S]) simp
  qed
qed

lemma inplace_pass_spec:
  fixes get_key :: "'a \<Rightarrow> 'k::len word" and OFFSET L :: nat
  defines "f \<equiv> digit get_key OFFSET (2 ^ L - 1)"
  assumes len: "length src = n"
  shows "\<exists>src' c'. inplace_pass get_key OFFSET (2 ^ L - 1) (2 ^ L) src n = Some (src', c')
          \<and> mset src' = mset src
          \<and> (\<forall>v<2 ^ L. c' ! (2 ^ L + v) = below f src (Suc v))
          \<and> (\<forall>v<2 ^ L. \<forall>i. below f src v \<le> i \<and> i < below f src (Suc v) \<longrightarrow> f (src' ! i) = v)"
proof -
  let ?S = "(2::nat) ^ L"
  let ?cdf = "cdf get_key OFFSET (2 ^ L - 1) (2 ^ L) src n"
  let ?c0 = "bucket_ends ?S n ?cdf"
  note be = bucket_ends_cdf[where get_key = get_key and OFFSET = OFFSET and L = L, OF len,
      folded f_def]
  have lcdf: "length ?cdf = 2 * ?S"
    using cdf_spec(1)[where get_key = get_key and OFFSET = OFFSET and L = L and src = src and n = n,
        OF refl refl] len by simp
  have low: "\<And>i. i < ?S \<Longrightarrow> ?c0 ! i = ?cdf ! i"
    by (rule bucket_ends_spec(2)[OF lcdf]) simp_all
  have sb: "same_bucket ?c0 ?S n \<longleftrightarrow> (\<exists>k. Suc k < ?S \<and> (\<forall>x\<in>set src. f x = k))"
    using same_bucket_lower[of ?S ?c0 ?cdf n, OF low]
      same_bucket_cdf[where get_key = get_key and OFFSET = OFFSET and L = L and n = n and src = src]
      len
    by (simp add: f_def)
  show ?thesis
  proof (cases "same_bucket ?c0 ?S n")
    case True
    then obtain k where k: "Suc k < ?S" "\<And>x. x \<in> set src \<Longrightarrow> f x = k" using sb by auto
    have r: "inplace_pass get_key OFFSET (2 ^ L - 1) (2 ^ L) src n = Some (src, ?c0)"
      using True by (simp add: inplace_pass_def Let_def)
    have pos: "f (src ! i) = v" if "v < ?S" "below f src v \<le> i" "i < below f src (Suc v)" for v i
    proof -
      have "i < length src" using that(3) below_le_length[of f src "Suc v"] by simp
      then have fi: "f (src ! i) = k" using k(2) by simp
      have "below f src v < below f src (Suc v)" using that by simp
      then have "v = k"
        using below_single[where xs = src and f = f and k = k and j = v, OF k(2)]
          below_single[where xs = src and f = f and k = k and j = "Suc v", OF k(2)]
        by (auto split: if_splits)
      then show ?thesis using fi by simp
    qed
    show ?thesis unfolding r using be(3) pos by auto
  next
    case False
    have inv0: "perm_inv f ?S src src ?c0"
      unfolding perm_inv_def using be by (auto simp: below_Suc)
    obtain src' c' where
      p: "permute get_key OFFSET (2 ^ L - 1) (2 ^ L) 0 src ?c0 = Some (src', c')"
      and i': "perm_inv f ?S src src' c'" and d': "\<forall>v<?S. c' ! v = c' ! (?S + v)"
      using permute_spec[OF inv0[unfolded f_def], of 0, folded f_def] by auto
    have r: "inplace_pass get_key OFFSET (2 ^ L - 1) (2 ^ L) src n = Some (src', c')"
      using False p by (simp add: inplace_pass_def Let_def)
    have ms: "mset src' = mset src" using i' unfolding perm_inv_def by blast
    have e: "c' ! (?S + v) = below f src (Suc v)" if "v < ?S" for v
      by (rule perm_inv_end[OF i' that])
    have pos: "f (src' ! i) = v" if "v < ?S" "below f src v \<le> i" "i < below f src (Suc v)" for v i
    proof -
      have "c' ! v = below f src (Suc v)" using d' e[OF that(1)] that(1) by simp
      moreover have "\<forall>i. below f src v \<le> i \<and> i < c' ! v \<longrightarrow> f (src' ! i) = v"
        using i' that(1) unfolding perm_inv_def by blast
      ultimately show ?thesis using that by simp
    qed
    show ?thesis unfolding r using ms e pos by auto
  qed
qed

lemma in_set_window:
  assumes "x \<in> set (window ys b m)"
  shows "\<exists>i. b \<le> i \<and> i < b + m \<and> i < length ys \<and> x = ys ! i"
proof -
  from assms obtain i where i: "i < length (take m (drop b ys))" "x = take m (drop b ys) ! i"
    unfolding window_def by (metis in_set_conv_nth)
  then have im: "i < m" "b + i < length ys" by auto
  then have "b \<le> length ys" by simp
  then have "x = ys ! (b + i)" using i by (simp add: nth_drop)
  then show ?thesis using im by (intro exI[of _ "b + i"]) simp
qed

lemma in_set_drop:
  assumes "y \<in> set (drop e ys)"
  shows "\<exists>i. e \<le> i \<and> i < length ys \<and> y = ys ! i"
proof -
  from assms obtain i where i: "i < length (drop e ys)" "y = drop e ys ! i"
    by (metis in_set_conv_nth)
  then have ie: "e + i < length ys" by auto
  then have "e \<le> length ys" by simp
  then have "y = ys ! (e + i)" using i by (simp add: nth_drop)
  then show ?thesis using ie by (intro exI[of _ "e + i"]) simp
qed

lemma positional_sorted:
  assumes pos: "\<And>v i. v < S \<Longrightarrow> below f xs v \<le> i \<Longrightarrow> i < below f xs (Suc v) \<Longrightarrow> f (ys ! i) = v"
    and len: "length ys = below f xs S"
  shows "sorted (map f ys)"
  unfolding sorted_iff_nth_mono
proof (intro allI impI)
  fix i j assume ij: "i \<le> j" and j: "j < length (map f ys)"
  then have i': "i < below f xs S" and j': "j < below f xs S" using len by simp_all
  obtain v where v: "v < S" "below f xs v \<le> i" "i < below f xs (Suc v)"
    using region_exists[OF i'] by blast
  obtain w where w: "w < S" "below f xs w \<le> j" "j < below f xs (Suc w)"
    using region_exists[OF j'] by blast
  have "v \<le> w"
  proof (rule ccontr)
    assume "\<not> v \<le> w"
    then have "below f xs (Suc w) \<le> below f xs v" by (intro below_mono) simp
    then show False using v w ij by simp
  qed
  then show "map f ys ! i \<le> map f ys ! j"
    using pos[OF v] pos[OF w] ij j by simp
qed

lemma segs_ok_positional:
  fixes f key :: "'a \<Rightarrow> nat"
  assumes fS: "\<And>x. f x < S"
    and len: "length ys = length xs" and set: "set ys = set xs"
    and pos: "\<And>v i. v < S \<Longrightarrow> below f xs v \<le> i \<Longrightarrow> i < below f xs (Suc v) \<Longrightarrow> f (ys ! i) = v"
    and same: "\<And>x y. x \<in> set xs \<Longrightarrow> y \<in> set xs \<Longrightarrow> f x = f y \<Longrightarrow>
                 key x div 2 ^ off = key y div 2 ^ off"
    and ord: "\<And>x y. x \<in> set xs \<Longrightarrow> y \<in> set xs \<Longrightarrow> f x < f y \<Longrightarrow> key x \<le> key y"
    and e: "\<And>j. j < S \<Longrightarrow> e j = below f xs (Suc j)"
    and j: "j \<le> S"
  shows "segs_ok key off e S j (below f xs j) ys"
  using j
proof (induction "S - j" arbitrary: j)
  case 0
  then have "j = S" by simp
  moreover have "below f xs S = length xs" using fS by (simp add: below_all)
  ultimately show ?case
    by (subst segs_ok.simps) (simp add: len)
next
  case (Suc k)
  then have j: "j < S" by simp
  let ?b = "below f xs j"
  let ?seg = "window ys ?b (e j - ?b)"
  have n: "below f xs S = length xs" using fS by (simp add: below_all)
  have ej: "e j = below f xs (Suc j)" by (rule e[OF j])
  have 1: "?b \<le> e j" unfolding ej by (simp add: below_Suc)
  have 2: "e j \<le> length ys" unfolding ej len by (rule below_le_length)
  have inseg: "x \<in> set xs \<and> f x = j" if xseg: "x \<in> set ?seg" for x
  proof -
    obtain i where i: "?b \<le> i" "i < ?b + (e j - ?b)" "i < length ys" "x = ys ! i"
      using in_set_window[OF xseg] by blast
    then have "i < below f xs (Suc j)" using 1 ej by simp
    then have "f (ys ! i) = j" using pos[OF j i(1)] by simp
    moreover have "ys ! i \<in> set xs" using i(3) set by (metis nth_mem)
    ultimately show ?thesis using i(4) by simp
  qed
  have inrest: "y \<in> set xs \<and> j < f y" if yrest: "y \<in> set (drop (e j) ys)" for y
  proof -
    obtain i where i: "e j \<le> i" "i < length ys" "y = ys ! i"
      using in_set_drop[OF yrest] by blast
    then have "i < below f xs S" using len n by simp
    then obtain w where w: "w < S" "below f xs w \<le> i" "i < below f xs (Suc w)"
      using region_exists by blast
    have "j < w"
    proof (rule ccontr)
      assume "\<not> j < w"
      then have "below f xs (Suc w) \<le> below f xs (Suc j)" by (intro below_mono) simp
      then show False using w(3) i(1) ej by simp
    qed
    moreover have "f (ys ! i) = w" by (rule pos[OF w])
    moreover have "ys ! i \<in> set xs" using i(2) set by (metis nth_mem)
    ultimately show ?thesis using i(3) by simp
  qed
  have 3: "\<forall>x\<in>set ?seg. \<forall>y\<in>set ?seg. key x div 2 ^ off = key y div 2 ^ off"
  proof (intro ballI)
    fix x y assume "x \<in> set ?seg" "y \<in> set ?seg"
    then have "x \<in> set xs" "y \<in> set xs" "f x = f y" using inseg by simp_all
    then show "key x div 2 ^ off = key y div 2 ^ off" by (rule same)
  qed
  have 4: "\<forall>x\<in>set ?seg. \<forall>y\<in>set (drop (e j) ys). key x \<le> key y"
  proof (intro ballI)
    fix x y assume "x \<in> set ?seg" "y \<in> set (drop (e j) ys)"
    then have "x \<in> set xs" "y \<in> set xs" "f x < f y" using inseg inrest by simp_all
    then show "key x \<le> key y" by (rule ord)
  qed
  have 5: "segs_ok key off e S (j + 1) (e j) ys"
    using Suc.hyps(1)[of "j + 1"] Suc.hyps(2) j ej by simp
  show ?case
    unfolding segs_ok.simps[of key off e S j ?b ys] if_P[OF j]
    using 1 2 3 4 5 by blast
qed

lemma inplace_bucket_step_spec:
  fixes get_key :: "'a \<Rightarrow> 'k::len word"
  defines "key \<equiv> key_of get_key"
  assumes len: "length src = n" and bm: "b + m \<le> n"
    and same: "\<forall>x\<in>set (window src b m). \<forall>y\<in>set (window src b m).
                 key x div 2 ^ off = key y div 2 ^ off"
    and rec_ok: "\<And>s m. length s = m \<Longrightarrow>
        (\<forall>x\<in>set s. \<forall>y\<in>set s. key x div 2 ^ off = key y div 2 ^ off) \<Longrightarrow>
        \<exists>s'. rec s m = Some s' \<and> mset s' = mset s \<and> sorted (map key s')"
  shows "\<exists>seg. inplace_bucket_step rec get_key b m src = Some (put_window src b seg)
          \<and> mset seg = mset (window src b m) \<and> sorted (map key seg)"
proof -
  have lw: "length (window src b m) = m" using bm len by (simp add: length_window)
  consider "m = 0 \<or> m = 1" | "m = 2" | "2 < m" by linarith
  then show ?thesis
  proof cases
    case 1
    have "inplace_bucket_step rec get_key b m src = Some (put_window src b (window src b m))"
      using 1 by (auto simp: inplace_bucket_step_def put_window_id)
    moreover have "sorted (map key (window src b m))"
      using lw 1 by (cases "window src b m") auto
    ultimately show ?thesis by blast
  next
    case 2
    then have b: "b + 1 < length src" using bm len by simp
    let ?x = "src ! b" and ?y = "src ! (b + 1)"
    have w: "window src b 2 = [?x, ?y]" by (rule window_two[OF b])
    have k: "get_key ?y < get_key ?x \<longleftrightarrow> key ?y < key ?x"
      by (simp add: key_def key_less)
    show ?thesis
    proof (cases "key ?y < key ?x")
      case True
      have "src[b + 1 := ?x, b := ?y] = src[b := ?y, b + 1 := ?x]"
        by (rule list_update_swap) simp
      then have "inplace_bucket_step rec get_key b m src = Some (put_window src b [?y, ?x])"
        using True k unfolding 2 inplace_bucket_step_def
        by (simp add: Let_def put_window_pair[OF b])
      moreover have "mset [?y, ?x] = mset (window src b m)" unfolding 2 w by simp
      moreover have "sorted (map key [?y, ?x])" using True by simp
      ultimately show ?thesis by blast
    next
      case False
      have "inplace_bucket_step rec get_key b m src = Some (put_window src b (window src b m))"
        using False k unfolding 2 inplace_bucket_step_def by (simp add: put_window_id)
      moreover have "sorted (map key (window src b m))" unfolding 2 w using False by simp
      ultimately show ?thesis by blast
    qed
  next
    case 3
    obtain s' where r: "rec (window src b m) m = Some s'"
      and ms: "mset s' = mset (window src b m)" and so: "sorted (map key s')"
      using rec_ok[OF lw same] by blast
    have "inplace_bucket_step rec get_key b m src = Some (put_window src b s')"
      using 3 r by (simp add: inplace_bucket_step_def)
    then show ?thesis using ms so by blast
  qed
qed

lemma inplace_buckets_spec:
  fixes get_key :: "'a \<Rightarrow> 'k::len word"
  defines "key \<equiv> key_of get_key"
  assumes len: "length src = n"
    and segs: "segs_ok key off (\<lambda>j. c ! (S + j)) S j b src"
    and rec_ok: "\<And>s m. length s = m \<Longrightarrow>
        (\<forall>x\<in>set s. \<forall>y\<in>set s. key x div 2 ^ off = key y div 2 ^ off) \<Longrightarrow>
        \<exists>s'. rec s m = Some s' \<and> mset s' = mset s \<and> sorted (map key s')"
  shows "\<exists>src'. inplace_buckets rec get_key c S j b src = Some src'
          \<and> length src' = n \<and> take b src' = take b src
          \<and> mset (drop b src') = mset (drop b src) \<and> sorted (map key (drop b src'))"
  using len segs
proof (induction "S - j" arbitrary: j b src)
  case 0
  then have "\<not> j < S" by simp
  then show ?case
    using "0.prems" by (subst inplace_buckets.simps) (subst (asm) segs_ok.simps, simp)
next
  case (Suc k)
  then have j: "j < S" by simp
  let ?e = "c ! (S + j)"
  let ?seg = "window src b (?e - b)"
  note Suc.prems(2)[unfolded segs_ok.simps[of key off "\<lambda>j. c ! (S + j)" S j b src] if_P[OF j]]
  then have be: "b \<le> ?e" "?e \<le> length src"
    and same: "\<forall>x\<in>set ?seg. \<forall>y\<in>set ?seg. key x div 2 ^ off = key y div 2 ^ off"
    and cross: "\<forall>x\<in>set ?seg. \<forall>y\<in>set (drop ?e src). key x \<le> key y"
    and next_ok: "segs_ok key off (\<lambda>j. c ! (S + j)) S (j + 1) ?e src"
    by blast+
  have bm: "b + (?e - b) \<le> n" using be Suc.prems(1) by simp
  obtain seg where
    st: "inplace_bucket_step rec get_key b (?e - b) src = Some (put_window src b seg)"
    and ms: "mset seg = mset ?seg" and so: "sorted (map key seg)"
    using inplace_bucket_step_spec[where get_key = get_key and rec = rec, folded key_def,
        OF Suc.prems(1) bm same rec_ok]
    by blast
  let ?src1 = "put_window src b seg"
  have lseg: "length seg = ?e - b"
    using ms bm Suc.prems(1) by (metis length_window size_mset)
  have l1: "length ?src1 = n"
    using length_put_window[of b seg src] lseg bm Suc.prems(1) by simp
  have d1: "drop ?e ?src1 = drop ?e src"
    using drop_put_window[of b seg src] lseg bm be Suc.prems(1) by simp
  have ok1: "segs_ok key off (\<lambda>j. c ! (S + j)) S (j + 1) ?e ?src1"
    using segs_ok_cong[of ?src1 src ?e key off "\<lambda>j. c ! (S + j)" S "j + 1"] l1 Suc.prems(1) d1
      next_ok by simp
  have k: "k = S - (j + 1)" using Suc.hyps(2) by simp
  obtain src2 where
    r2: "inplace_buckets rec get_key c S (j + 1) ?e ?src1 = Some src2"
    and l2: "length src2 = n"
    and t2: "take ?e src2 = take ?e ?src1"
    and m2: "mset (drop ?e src2) = mset (drop ?e ?src1)"
    and s2: "sorted (map key (drop ?e src2))"
    using Suc.hyps(1)[OF k l1 ok1] by blast
  have res: "inplace_buckets rec get_key c S j b src = Some src2"
    using j st r2 by (subst inplace_buckets.simps) simp
  have e: "b + (?e - b) = ?e" using be by simp
  have "take b src2 = take b (take ?e src2)" using be by (simp add: min_def)
  also have "\<dots> = take b ?src1" unfolding t2 using be by (simp add: min_def)
  also have "\<dots> = take b src" using be Suc.prems(1) by (intro take_put_window) simp
  finally have tk: "take b src2 = take b src" .
  have "window src2 b (?e - b) = window (take (b + (?e - b)) src2) b (?e - b)"
    by (simp only: window_take)
  also have "\<dots> = window ?src1 b (?e - b)" unfolding e t2 by (metis e window_take)
  also have "\<dots> = seg"
    using window_put_window[of b src seg] lseg be Suc.prems(1) by simp
  finally have w: "window src2 b (?e - b) = seg" .
  have dr: "drop b src2 = seg @ drop ?e src2"
    using window_drop[of src2 b "?e - b"] unfolding w e by simp
  have dr0: "drop b src = ?seg @ drop ?e src"
    using window_drop[of src b "?e - b"] unfolding e by simp
  have m: "mset (drop b src2) = mset (drop b src)"
    unfolding dr dr0 using ms m2 d1 by simp
  have "set seg = set ?seg" using ms by (rule mset_eq_setD)
  moreover have "set (drop ?e src2) = set (drop ?e src)"
    using m2 d1 by (metis mset_eq_setD)
  ultimately have "\<forall>x\<in>set seg. \<forall>y\<in>set (drop ?e src2). key x \<le> key y"
    using cross by simp
  then have "sorted (map key (drop b src2))"
    unfolding dr using so s2 by (auto simp: sorted_append)
  then show ?case using res l2 tk m by blast
qed

lemma radix_sort_msd_inplace_impl_spec:
  fixes get_key :: "'a \<Rightarrow> 'k::len word"
  assumes B: "0 < B"
    and len: "length src = n"
    and shared: "\<forall>x\<in>set src. \<forall>y\<in>set src.
                   key_of get_key x div 2 ^ W = key_of get_key y div 2 ^ W"
  shows "\<exists>src'. radix_sort_msd_inplace_impl get_key dflt W B THRESHOLD src n = Some src'
          \<and> mset src' = mset src \<and> sorted (map (key_of get_key) src')"
  using len shared
proof (induction W arbitrary: src n rule: less_induct)
  case (less W)
  let ?key = "key_of get_key"
  define L where "L = (if B < W then B else W)"
  define off where "off = W - L"
  let ?f = "digit get_key off (2 ^ L - 1)"
  have unf: "radix_sort_msd_inplace_impl get_key dflt W B THRESHOLD src n =
      (if n < THRESHOLD
       then map_option (\<lambda>(r, src', tmp'). src')
              (fallback_sort get_key src (replicate THRESHOLD dflt) n 0)
       else do {
         (src1, c) \<leftarrow> inplace_pass get_key off (2 ^ L - 1) (2 ^ L) src n;
         (if 0 < off then
            inplace_buckets
              (\<lambda>s m. radix_sort_msd_inplace_impl get_key dflt off B THRESHOLD s m)
              get_key c (2 ^ L) 0 0 src1
          else Some src1)
       })"
    unfolding off_def L_def using B
    by (subst radix_sort_msd_inplace_impl.simps)
       (simp only: Let_def if_not_P[of "B = 0"] neq0_conv)
  show ?case
  proof (cases "n < THRESHOLD")
    case True
    then have "n \<le> length (replicate THRESHOLD dflt)" by simp
    from fallback_sort_spec[OF less.prems(1) this, of get_key 0]
    obtain s' t' where "fallback_sort get_key src (replicate THRESHOLD dflt) n 0
           = Some (Src, s', t')" "s' = sort_key ?key src"
      by auto
    then show ?thesis unfolding unf using True by simp
  next
    case False
    have W: "off + L = W" by (simp add: off_def L_def)
    have f: "?f = (\<lambda>x. (?key x div 2 ^ off) mod 2 ^ L)" by (rule digit_key_of)
    have sh: "?key x div 2 ^ (off + L) = ?key y div 2 ^ (off + L)"
      if "x \<in> set src" "y \<in> set src" for x y
      unfolding W using less.prems(2) that by blast
    obtain src1 c where
      p: "inplace_pass get_key off (2 ^ L - 1) (2 ^ L) src n = Some (src1, c)"
      and m1: "mset src1 = mset src"
      and ce: "\<And>v. v < 2 ^ L \<Longrightarrow> c ! (2 ^ L + v) = below ?f src (Suc v)"
      and pos: "\<And>v i. v < 2 ^ L \<Longrightarrow> below ?f src v \<le> i \<Longrightarrow> i < below ?f src (Suc v)
                  \<Longrightarrow> ?f (src1 ! i) = v"
      using inplace_pass_spec[where get_key = get_key and OFFSET = off and L = L, OF less.prems(1)]
      by blast
    have l1: "length src1 = length src" using m1 by (rule mset_eq_length)
    have s1: "set src1 = set src" using m1 by (rule mset_eq_setD)
    have fS: "\<And>x. ?f x < 2 ^ L" by (rule digit_less)
    define T where "T = (if 0 < off then
            inplace_buckets
              (\<lambda>s m. radix_sort_msd_inplace_impl get_key dflt off B THRESHOLD s m)
              get_key c (2 ^ L) 0 0 src1
          else Some src1)"
    have res: "radix_sort_msd_inplace_impl get_key dflt W B THRESHOLD src n = T"
      unfolding unf T_def by (simp only: False if_False p bind.bind_lunit prod.case)
    have "\<exists>src'. T = Some src' \<and> mset src' = mset src \<and> sorted (map ?key src')"
    proof (cases "0 < off")
      case True
      then have lt: "off < W" using B by (auto simp: off_def L_def split: if_splits)
      define rec where "rec = (\<lambda>s m. radix_sort_msd_inplace_impl get_key dflt off B THRESHOLD s m)"
      have rec_ok: "\<exists>s'. rec s m = Some s' \<and> mset s' = mset s \<and> sorted (map ?key s')"
        if "length s = m"
          "\<forall>x\<in>set s. \<forall>y\<in>set s. ?key x div 2 ^ off = ?key y div 2 ^ off" for s m
        unfolding rec_def by (rule less.IH[OF lt that])
      have same: "?key x div 2 ^ off = ?key y div 2 ^ off"
        if "x \<in> set src" "y \<in> set src" "?f x = ?f y" for x y
        by (rule hi_eq[where key = ?key and x = x and y = y and off = off and L = L,
              OF sh[OF that(1,2)]]) (rule that(3)[unfolded f])
      have ord: "?key x \<le> ?key y"
        if "x \<in> set src" "y \<in> set src" "?f x < ?f y" for x y
        by (rule key_le_by_digit[where key = ?key and x = x and y = y and off = off and L = L,
              OF sh[OF that(1,2)]]) (rule that(3)[unfolded f])
      have segs: "segs_ok ?key off (\<lambda>j. c ! (2 ^ L + j)) (2 ^ L) 0 (below ?f src 0) src1"
        by (rule segs_ok_positional[where f = ?f and xs = src, OF fS l1 s1 pos same ord ce]) simp_all
      have b0: "below ?f src 0 = 0" by (simp add: below_def)
      have "\<exists>src'. inplace_buckets rec get_key c (2 ^ L) 0 0 src1 = Some src'
          \<and> length src' = length src \<and> take 0 src' = take 0 src1
          \<and> mset (drop 0 src') = mset (drop 0 src1) \<and> sorted (map ?key (drop 0 src'))"
      proof (rule inplace_buckets_spec[where off = off, OF l1 segs[unfolded b0]])
        fix s m
        assume "length s = m"
          "\<forall>x\<in>set s. \<forall>y\<in>set s. ?key x div 2 ^ off = ?key y div 2 ^ off"
        then show "\<exists>s'. rec s m = Some s' \<and> mset s' = mset s \<and> sorted (map ?key s')"
          by (rule rec_ok)
      qed
      then obtain src2 where
        r: "inplace_buckets rec get_key c (2 ^ L) 0 0 src1 = Some src2"
        and m2: "mset (drop 0 src2) = mset (drop 0 src1)"
        and s2: "sorted (map ?key (drop 0 src2))"
        by (elim exE conjE)
      show ?thesis using True r m2 s2 m1 unfolding T_def rec_def by simp
    next
      case False
      then have off0: "off = 0" by simp
      then have LW: "L = W" using W by simp
      have fk: "?f = (\<lambda>x. ?key x mod 2 ^ W)"
        unfolding f unfolding off0 LW by simp
      have "below ?f src (2 ^ L) = length src" using fS by (simp add: below_all)
      then have "sorted (map ?f src1)"
        using positional_sorted[where f = ?f and xs = src and ys = src1 and S = "2 ^ L"] pos l1
        by simp
      then have so: "sorted (map (\<lambda>x. ?key x mod 2 ^ W) src1)" unfolding fk .
      have "sorted (map ?key src1)"
        unfolding sorted_iff_nth_mono
      proof (intro allI impI)
        fix i j assume ij: "i \<le> j" "j < length (map ?key src1)"
        then have i: "i < length src1" and j: "j < length src1" by simp_all
        have xi: "src1 ! i \<in> set src" and xj: "src1 ! j \<in> set src"
          using i j s1 nth_mem by blast+
        have d: "?key (src1 ! i) div 2 ^ W = ?key (src1 ! j) div 2 ^ W"
          using less.prems(2) xi xj by blast
        have "map (\<lambda>x. ?key x mod 2 ^ W) src1 ! i \<le> map (\<lambda>x. ?key x mod 2 ^ W) src1 ! j"
          by (rule sorted_nth_mono[OF so ij(1)]) (use j in simp)
        then have md: "?key (src1 ! i) mod 2 ^ W \<le> ?key (src1 ! j) mod 2 ^ W"
          using i j by simp
        have "?key (src1 ! i) \<le> ?key (src1 ! j)"
        proof (rule le_by_div_mod[where M = "2 ^ W"])
          show "?key (src1 ! i) div 2 ^ W \<le> ?key (src1 ! j) div 2 ^ W"
            unfolding d by (rule order_refl)
          show "?key (src1 ! i) mod 2 ^ W \<le> ?key (src1 ! j) mod 2 ^ W" by (rule md)
        qed
        then show "map ?key src1 ! i \<le> map ?key src1 ! j" using i j by simp
      qed
      then show ?thesis using False m1 unfolding T_def by simp
    qed
    then show ?thesis unfolding res .
  qed
qed

lemma radix_sort_inplace_spec:
  fixes get_key :: "'a \<Rightarrow> 'k::len word"
  assumes len: "length src = n"
  shows "\<exists>src'. radix_sort_inplace get_key dflt src n = Some src'
          \<and> mset src' = mset src \<and> sorted (map (key_of get_key) src')"
proof -
  have a: "\<exists>src'. radix_sort_msd_inplace_impl get_key dflt LENGTH('k) 8 128 src n = Some src'
          \<and> mset src' = mset src \<and> sorted (map (key_of get_key) src')"
    by (rule radix_sort_msd_inplace_impl_spec[OF _ len shared_top]) simp
  have b: "\<exists>src'. radix_sort_msd_inplace_impl get_key dflt LENGTH('k) 11 256 src n = Some src'
          \<and> mset src' = mset src \<and> sorted (map (key_of get_key) src')"
    by (rule radix_sort_msd_inplace_impl_spec[OF _ len shared_top]) simp
  show ?thesis
    unfolding radix_sort_inplace_def Let_def using a b by (simp only: split: if_splits) auto
qed
section \<open>Depth of the recursion and the boundary sizes\<close>

lemma msd_depth_pred:
  assumes "0 < B" "0 < W"
  shows "msd_depth W B = (W - 1) div B + 1"
  using assms(2)
proof (induction W rule: less_induct)
  case (less W)
  show ?case
  proof (cases "B < W")
    case True
    then have off: "W - B < W" "0 < W - B" using assms(1) by simp_all
    have "msd_depth W B = 1 + msd_depth (W - B) B"
      using True assms(1) by (subst msd_depth.simps) (simp add: Let_def)
    also have "\<dots> = 1 + ((W - B - 1) div B + 1)" using less.IH[OF off] by simp
    also have "(W - B - 1) div B + 1 = (W - B - 1 + B) div B"
      by (rule div_add_self2[symmetric]) (use assms(1) in simp)
    also have "W - B - 1 + B = W - 1" using True assms(1) by simp
    finally show ?thesis by simp
  next
    case False
    then have "msd_depth W B = 1"
      using assms(1) by (subst msd_depth.simps) (simp add: Let_def)
    moreover have "(W - 1) div B = 0" using False less.prems by simp
    ultimately show ?thesis by simp
  qed
qed

lemma msd_depth_eq:
  assumes "0 < B" "0 < W"
  shows "msd_depth W B = (W + B - 1) div B"
proof -
  have "W + B - 1 = W - 1 + B" using assms(2) by simp
  moreover have "(W - 1 + B) div B = (W - 1) div B + 1"
    by (rule div_add_self2) (use assms(1) in simp)
  ultimately have "(W + B - 1) div B = (W - 1) div B + 1" by (simp only:)
  then show ?thesis using msd_depth_pred[OF assms] by simp
qed

section \<open>The claims\<close>

text \<open>
  C9. The unrolled counting loop with its two interleaved histograms, followed by the
  prefix scan over \<open>c[2j]+c[2j+1]\<close>, leaves in the first \<open>SIZE\<close> entries of \<open>c\<close>
  the same table of bucket boundaries as one plain histogram of the digit values
  followed by an exclusive prefix sum, for every range and every digit position.
\<close>

theorem cdf_refines_plain_count:
  fixes get_key :: "'a \<Rightarrow> 'k::len word"
  assumes "n \<le> length src"
  shows "take (2 ^ L) (cdf get_key OFFSET (2 ^ L - 1) (2 ^ L) src n)
         = exclusive_prefix_sum (histogram get_key OFFSET (2 ^ L - 1) (2 ^ L) src n)"
proof (rule nth_equalityI)
  note h = histogram_fold[OF assms, where get_key = get_key and OFFSET = OFFSET and L = L]
  note c = cdf_spec[where get_key = get_key and OFFSET = OFFSET and L = L, OF refl refl assms]
  show "length (take (2 ^ L) (cdf get_key OFFSET (2 ^ L - 1) (2 ^ L) src n))
      = length (exclusive_prefix_sum (histogram get_key OFFSET (2 ^ L - 1) (2 ^ L) src n))"
    using h c(1) by (simp add: exclusive_prefix_sum_def)
  fix j assume "j < length (take (2 ^ L) (cdf get_key OFFSET (2 ^ L - 1) (2 ^ L) src n))"
  then have j: "j < 2 ^ L" by simp
  have "exclusive_prefix_sum (histogram get_key OFFSET (2 ^ L - 1) (2 ^ L) src n) ! j
      = (\<Sum>v<j. histogram get_key OFFSET (2 ^ L - 1) (2 ^ L) src n ! v)"
    using h j by (simp add: exclusive_prefix_sum_def sum_list_take)
  also have "\<dots> = (\<Sum>v<j. occ (digit get_key OFFSET (2 ^ L - 1)) (take n src) v)"
    using h j by (intro sum.cong refl) simp
  finally show "take (2 ^ L) (cdf get_key OFFSET (2 ^ L - 1) (2 ^ L) src n) ! j
      = exclusive_prefix_sum (histogram get_key OFFSET (2 ^ L - 1) (2 ^ L) src n) ! j"
    using c(2)[OF j] j by (simp add: below_eq_sum)
qed


theorem cdf_refines_plain_count_witness:
  "take (2 ^ 2) (cdf (\<lambda>x::8 word. x) 0 (2 ^ 2 - 1) (2 ^ 2) [3, 1, 2, 3, 0] 5)
   = exclusive_prefix_sum (histogram (\<lambda>x::8 word. x) 0 (2 ^ 2 - 1) (2 ^ 2) [3, 1, 2, 3, 0] 5)"
  using cdf_refines_plain_count[where n = 5 and src = "[3, 1, 2, 3, 0]" and L = 2
      and get_key = "\<lambda>x::8 word. x" and OFFSET = 0] by simp


text \<open>
  C6. \<open>radix_sort_stable\<close> runs the MSD engine exactly when \<open>mode\<close> is 1, or \<open>mode\<close>
  is neither 0 nor 1 and \<open>n < 1500\<close>, or the key is wider than 40 bits, or the element
  is wider than 64 bits and \<open>n > 10000000/sizeof(T)\<close>; otherwise it runs the LSD engine
  with 8 bits. The MSD engine runs with 11 bits and threshold 256 exactly when
  \<open>4000 < n < 60000\<close> or \<open>2000000 < n < 9000000\<close>, and with 8 bits and threshold 128
  otherwise.
\<close>

theorem radix_sort_stable_dispatch:
  fixes get_key :: "'a \<Rightarrow> 'k::len word"
  shows "radix_sort_stable get_key sizeof_T src tmp n destination mode =
         (if msd_selected mode n LENGTH('k) sizeof_T
          then (if wide_radix n then radix_sort_msd get_key 11 256 src tmp n destination
                else radix_sort_msd get_key 8 128 src tmp n destination)
          else radix_sort_lsd get_key 8 src tmp n destination)"
  by (rule dispatch_eq)

theorem radix_sort_stable_dispatch_witness:
  "radix_sort_stable (\<lambda>x::32 word. x) 4 [] [] 5000 0 1
   = radix_sort_msd (\<lambda>x::32 word. x) 11 256 [] [] 5000 0"
proof -
  have "msd_selected 1 5000 LENGTH(32) 4" "wide_radix 5000"
    by (simp_all add: msd_selected_def wide_radix_def)
  then show ?thesis
    by (simp only: radix_sort_stable_dispatch if_True)
qed

text \<open>
  C3. \<open>radix_sort_stable\<close> is stable for every input and every \<open>destination\<close> and
  \<open>mode\<close>: it returns, and for every key the elements of that key stand in the
  returned buffer in the order in which they stand in the input.
\<close>

theorem radix_sort_stable_stable:
  fixes get_key :: "'a \<Rightarrow> 'k::len word"
  assumes "length src = n" "length tmp = n"
  shows "\<exists>res. radix_sort_stable get_key sizeof_T src tmp n destination mode = Some res \<and>
           (\<forall>k. filter (\<lambda>x. get_key x = k) (result_buf res) = filter (\<lambda>x. get_key x = k) src)"
proof -
  obtain r s' t' where
    "radix_sort_stable get_key sizeof_T src tmp n destination mode = Some (r, s', t')"
    "result_buf (r, s', t') = sort_key (key_of get_key) src"
    using radix_sort_stable_spec[OF assms] by blast
  then show ?thesis
    by (simp add: filter_keys sort_key_stable)
qed

theorem radix_sort_stable_stable_witness:
  "\<exists>res. radix_sort_stable (fst :: 32 word \<times> nat \<Rightarrow> 32 word) 16
            [(5, 0), (3, 1), (3, 2), (1, 3), (4, 4)] (replicate 5 (0, 0)) 5 0 (- 1) = Some res \<and>
         (\<forall>k. filter (\<lambda>x. fst x = k) (result_buf res)
               = filter (\<lambda>x. fst x = k) [(5, 0), (3, 1), (3, 2), (1, 3), (4, 4)])"
proof -
  have 1: "length [(5::32 word, 0::nat), (3, 1), (3, 2), (1, 3), (4, 4)] = 5" by simp
  have 2: "length (replicate 5 (0::32 word, 0::nat)) = 5" by simp
  show ?thesis by (rule radix_sort_stable_stable[OF 1 2])
qed

text \<open>
  C5. With \<open>destination = 0\<close> \<open>radix_sort_stable\<close> returns \<open>src\<close> and the sorted
  sequence is in \<open>src\<close>; with \<open>destination = 1\<close> it returns \<open>tmp\<close> and the sorted
  sequence is in \<open>tmp\<close>; with any other value it returns one of the two, and the
  buffer it returns holds the stable sort of the input. This holds for every \<open>mode\<close>.
\<close>

theorem radix_sort_stable_destination:
  fixes get_key :: "'a \<Rightarrow> 'k::len word"
  assumes "length src = n" "length tmp = n"
  shows "\<exists>r src' tmp'.
           radix_sort_stable get_key sizeof_T src tmp n destination mode = Some (r, src', tmp') \<and>
           (destination = 0 \<longrightarrow> r = Src \<and> src' = sort_key get_key src) \<and>
           (destination = 1 \<longrightarrow> r = Tmp \<and> tmp' = sort_key get_key src) \<and>
           (r = Src \<or> r = Tmp) \<and>
           result_buf (r, src', tmp') = sort_key get_key src"
proof -
  obtain r s' t' where
    "radix_sort_stable get_key sizeof_T src tmp n destination mode = Some (r, s', t')"
    "result_buf (r, s', t') = sort_key (key_of get_key) src"
    "destination = 0 \<longrightarrow> r = Src" "destination = 1 \<longrightarrow> r = Tmp"
    using radix_sort_stable_spec[OF assms, where get_key = get_key and sizeof_T = sizeof_T
        and destination = destination and mode = mode]
    by (elim exE conjE) (rule that)
  then show ?thesis
    by (cases r) (auto simp: sort_key_words)
qed

theorem radix_sort_stable_destination_witness:
  "\<exists>r src' tmp'.
     radix_sort_stable (\<lambda>x::32 word. x) 4 [5, 3, 3, 1, 4] (replicate 5 0) 5 1 0
       = Some (r, src', tmp') \<and>
     ((1::int) = 0 \<longrightarrow> r = Src \<and> src' = sort_key (\<lambda>x. x) [5, 3, 3, 1, 4]) \<and>
     ((1::int) = 1 \<longrightarrow> r = Tmp \<and> tmp' = sort_key (\<lambda>x. x) [5, 3, 3, 1, 4]) \<and>
     (r = Src \<or> r = Tmp) \<and>
     result_buf (r, src', tmp') = sort_key (\<lambda>x. x) [5, 3, 3, 1, 4]"
proof -
  have 1: "length [5::32 word, 3, 3, 1, 4] = 5" by simp
  have 2: "length (replicate 5 (0::32 word)) = 5" by simp
  show ?thesis by (rule radix_sort_stable_destination[OF 1 2])
qed

text \<open>
  C10. When the dispatcher runs the MSD engine and \<open>destination\<close> is neither 0 nor 1,
  \<open>radix_sort_stable\<close> returns \<open>src\<close> and the sorted result is in \<open>src\<close>:
  \<open>radix_sort_msd\<close> turns every destination other than 1 into 0, so the call does what
  the call with \<open>destination = 0\<close> does.
\<close>

theorem radix_sort_stable_msd_dont_care:
  fixes get_key :: "'a \<Rightarrow> 'k::len word"
  assumes "length src = n" "length tmp = n"
    and "msd_selected mode n LENGTH('k) sizeof_T"
    and "destination \<noteq> 0" "destination \<noteq> 1"
  shows "\<exists>src' tmp'.
           radix_sort_stable get_key sizeof_T src tmp n destination mode = Some (Src, src', tmp') \<and>
           src' = sort_key get_key src \<and>
           radix_sort_stable get_key sizeof_T src tmp n destination mode
             = radix_sort_stable get_key sizeof_T src tmp n 0 mode"
proof -
  have e: "radix_sort_msd get_key B THRESHOLD src tmp n destination
      = radix_sort_msd get_key B THRESHOLD src tmp n 0" for B THRESHOLD
    using assms(5) by (simp add: radix_sort_msd_def)
  have eq: "radix_sort_stable get_key sizeof_T src tmp n destination mode
      = radix_sort_stable get_key sizeof_T src tmp n 0 mode"
    unfolding dispatch_eq using assms(3) by (simp add: e)
  obtain r s' t' where
    "radix_sort_stable get_key sizeof_T src tmp n 0 mode = Some (r, s', t')"
    "result_buf (r, s', t') = sort_key (key_of get_key) src" "r = Src"
    using radix_sort_stable_spec[OF assms(1,2), of get_key sizeof_T 0 mode] by auto
  then show ?thesis
    unfolding eq by (simp add: sort_key_words)
qed

theorem radix_sort_stable_msd_dont_care_witness:
  "\<exists>src' tmp'.
     radix_sort_stable (\<lambda>x::32 word. x) 4 [5, 3, 3, 1, 4] (replicate 5 0) 5 (- 1) (- 1)
       = Some (Src, src', tmp') \<and>
     src' = sort_key (\<lambda>x. x) [5, 3, 3, 1, 4] \<and>
     radix_sort_stable (\<lambda>x::32 word. x) 4 [5, 3, 3, 1, 4] (replicate 5 0) 5 (- 1) (- 1)
       = radix_sort_stable (\<lambda>x::32 word. x) 4 [5, 3, 3, 1, 4] (replicate 5 0) 5 0 (- 1)"
proof -
  have 1: "length [5::32 word, 3, 3, 1, 4] = 5" by simp
  have 2: "length (replicate 5 (0::32 word)) = 5" by simp
  have 3: "msd_selected (- 1) 5 LENGTH(32) 4" by (simp add: msd_selected_def)
  have 4: "(- 1 :: int) \<noteq> 0" "(- 1 :: int) \<noteq> 1" by simp_all
  show ?thesis by (rule radix_sort_stable_msd_dont_care[OF 1 2 3 4])
qed

end
